theory Spec2Isabelle
  imports Main "HOL-Library.AList" "HOL-Library.Char_ord" "HOL-Library.List_Lexorder"
    "HOL-Library.Sublist" "HOL-Library.Multiset"
begin

section \<open>Python strings\<close>

text \<open>
  A Python \<open>str\<close> is modelled as a \<open>string\<close> (a list of 8-bit characters, compared by
  code point), and as the list of its code points where \<open>rename_sprites.py\<close> matches
  it against patterns that tell more characters apart. The exceptions the two scripts
  can meet are values of \<open>error\<close>.
\<close>

datatype error =
    IndexError
  | FileExistsError
  | FileNotFoundError
  | NotADirectoryError
  | IsADirectoryError
  | SameFileError
  | TypeError

text \<open>\<open>s.find(sep)\<close>: the index of the leftmost occurrence, \<open>None\<close> for \<open>-1\<close>.\<close>

fun find_sub :: "'a list \<Rightarrow> 'a list \<Rightarrow> nat option" where
  "find_sub sep [] = (if sep = [] then Some 0 else None)"
| "find_sub sep (c # cs) =
     (if prefix sep (c # cs) then Some 0 else map_option Suc (find_sub sep cs))"

text \<open>\<open>sep in s\<close>.\<close>

definition contains :: "string \<Rightarrow> string \<Rightarrow> bool" where
  "contains sep s = (find_sub sep s \<noteq> None)"

text \<open>\<open>s.split(sep, 1)\<close>: one cut, at the leftmost occurrence.\<close>

definition split_once :: "string \<Rightarrow> string \<Rightarrow> string list" where
  "split_once sep s =
     (case find_sub sep s of
        None \<Rightarrow> [s]
      | Some i \<Rightarrow> [take i s, drop (i + length sep) s])"

text \<open>\<open>s.split(sep)\<close> for a separator of one character: a cut at every occurrence.\<close>

fun split_char :: "char \<Rightarrow> string \<Rightarrow> string list" where
  "split_char sep [] = [[]]"
| "split_char sep (c # cs) =
     (if c = sep then [] # split_char sep cs
      else (case split_char sep cs of
              [] \<Rightarrow> [[c]]
            | w # ws \<Rightarrow> (c # w) # ws))"

text \<open>\<open>xs[-1]\<close> and \<open>xs[i]\<close>: both raise IndexError out of range.\<close>

definition index_last :: "'a list \<Rightarrow> error + 'a" where
  "index_last xs = (if xs = [] then Inl IndexError else Inr (last xs))"

definition index_at :: "'a list \<Rightarrow> nat \<Rightarrow> error + 'a" where
  "index_at xs i = (if i < length xs then Inr (xs ! i) else Inl IndexError)"

text \<open>\<open>s.rfind(c)\<close>: the index of the rightmost occurrence, or \<open>-1\<close>.\<close>

definition rfind :: "char \<Rightarrow> string \<Rightarrow> int" where
  "rfind c s =
     (if c \<in> set s
      then int (length s) - 1 - int (length (takeWhile (\<lambda>x. x \<noteq> c) (rev s)))
      else - 1)"

text \<open>
  \<open>os.path.basename\<close> and \<open>os.path.splitext\<close> as \<open>posixpath\<close> defines them: the base
  name starts after the last slash; the extension starts at the last dot of the base
  name, unless only dots stand before it.
\<close>

definition basename :: "string \<Rightarrow> string" where
  "basename p = drop (nat (rfind CHR ''/'' p + 1)) p"

definition splitext :: "string \<Rightarrow> string \<times> string" where
  "splitext p =
     (let sepIndex = rfind CHR ''/'' p; dotIndex = rfind CHR ''.'' p in
      if dotIndex > sepIndex \<and>
         list_ex (\<lambda>c. c \<noteq> CHR ''.'')
           (take (nat (dotIndex - (sepIndex + 1))) (drop (nat (sepIndex + 1)) p))
      then (take (nat dotIndex) p, drop (nat dotIndex) p)
      else (p, []))"

definition is_alpha :: "char \<Rightarrow> bool" where
  "is_alpha c = ((CHR ''A'' \<le> c \<and> c \<le> CHR ''Z'') \<or> (CHR ''a'' \<le> c \<and> c \<le> CHR ''z''))"

section \<open>organize_files.py: extract_category\<close>

text \<open>The table of (keyword of the pattern \<open>^_?keyword\<close>, category), in the source's order.\<close>

definition patterns :: "(string \<times> string) list" where
  "patterns =
     [(''IconArt'', ''IconArt''),
      (''Frame'', ''Frame''),
      (''Doodad'', ''Doodad''),
      (''Window'', ''Window''),
      (''Button'', ''Button'')]"

text \<open>\<open>re.match(r'^_?KW', s)\<close>: the keyword at position 0, after an optional underscore.\<close>

definition re_match_kw :: "string \<Rightarrow> string \<Rightarrow> bool" where
  "re_match_kw kw s = (prefix (CHR ''_'' # kw) s \<or> prefix kw s)"

text \<open>The loop \<open>for pattern, category in patterns\<close>: the first pattern that matches.\<close>

fun first_pattern :: "(string \<times> string) list \<Rightarrow> string \<Rightarrow> string option" where
  "first_pattern [] s = None"
| "first_pattern ((kw, category) # ps) s =
     (if re_match_kw kw s then Some category else first_pattern ps s)"

text \<open>\<open>re.match(r'([A-Za-z]+)', s)\<close>: group 1 is the leading run of ASCII letters.\<close>

definition re_match_alpha :: "string \<Rightarrow> string option" where
  "re_match_alpha s = (let g = takeWhile is_alpha s in if g = [] then None else Some g)"

text \<open>
  Lines 42 to 55: the block \<open>if '__' in filename\<close>. \<open>Inr None\<close> is falling through
  to the next rule.
\<close>

definition double_underscore_rule :: "string \<Rightarrow> error + string option" where
  "double_underscore_rule filename =
     (if contains ''__'' filename then
        (case index_at (split_once ''__'' filename) 1 of
           Inl e \<Rightarrow> Inl e
         | Inr after_double_underscore \<Rightarrow>
             (case first_pattern patterns after_double_underscore of
                Some category \<Rightarrow> Inr (Some category)
              | None \<Rightarrow> Inr (re_match_alpha after_double_underscore)))
      else Inr None)"

text \<open>Lines 58 to 65: the block \<open>if base_filename.startswith('_')\<close>.\<close>

definition leading_underscore_rule :: "string \<Rightarrow> string option" where
  "leading_underscore_rule base_filename =
     (if prefix ''_'' base_filename then re_match_alpha (drop 1 base_filename) else None)"

text \<open>
  \<open>extract_category\<close>. The parameter is rebound at line 22 to its last path segment, so
  every later line, the test for a double underscore too, reads the trimmed name.
\<close>

definition extract_category :: "string \<Rightarrow> error + string" where
  "extract_category filename0 =
     (case (if CHR ''/'' \<in> set filename0
            then index_last (split_char CHR ''/'' filename0)
            else Inr filename0) of
        Inl e \<Rightarrow> Inl e
      | Inr filename \<Rightarrow>
          (let base_filename = basename filename in
           case first_pattern patterns base_filename of
             Some category \<Rightarrow> Inr category
           | None \<Rightarrow>
               (case double_underscore_rule filename of
                  Inl e \<Rightarrow> Inl e
                | Inr (Some category) \<Rightarrow> Inr category
                | Inr None \<Rightarrow>
                    (case leading_underscore_rule base_filename of
                       Some category \<Rightarrow> Inr category
                     | None \<Rightarrow> Inr (fst (splitext filename))))))"

section \<open>rename_sprites.py: extract_proper_name\<close>

text \<open>
  The folder name is a \<open>str\<close> of any characters, here the list of its code points
  (the integers that \<open>ord\<close> gives); \<open>codepoints\<close> gives those of an 8-bit string,
  \<open>chars\<close> leads back.
\<close>

definition codepoints :: "string \<Rightarrow> int list" where
  "codepoints s = map of_char s"

definition chars :: "int list \<Rightarrow> string" where
  "chars cs = map char_of cs"

text \<open>
  \<open>\d\<close> in a pattern on a \<open>str\<close>: every decimal digit of Unicode (the category Nd), not
  only \<open>0\<close> to \<open>9\<close>. These digits stand in runs of ten, from a digit zero to a digit
  nine; \<open>decimal_zeros\<close> are the 66 digits zero of Unicode 14 (a later table has
  more runs; the rules proved below are stated for whatever \<open>is_digit\<close> accepts).
\<close>

definition decimal_zeros :: "int list" where
  "decimal_zeros =
     [0x30, 0x660, 0x6F0, 0x7C0, 0x966, 0x9E6, 0xA66, 0xAE6, 0xB66, 0xBE6, 0xC66, 0xCE6,
      0xD66, 0xDE6, 0xE50, 0xED0, 0xF20, 0x1040, 0x1090, 0x17E0, 0x1810, 0x1946, 0x19D0,
      0x1A80, 0x1A90, 0x1B50, 0x1BB0, 0x1C40, 0x1C50, 0xA620, 0xA8D0, 0xA900, 0xA9D0,
      0xA9F0, 0xAA50, 0xABF0, 0xFF10, 0x104A0, 0x10D30, 0x11066, 0x110F0, 0x11136,
      0x111D0, 0x112F0, 0x11450, 0x114D0, 0x11650, 0x116C0, 0x11730, 0x118E0, 0x11950,
      0x11C50, 0x11D50, 0x11DA0, 0x16A60, 0x16AC0, 0x16B50, 0x1D7CE, 0x1D7D8, 0x1D7E2,
      0x1D7EC, 0x1D7F6, 0x1E140, 0x1E2F0, 0x1E950, 0x1FBF0]"

definition is_digit :: "int \<Rightarrow> bool" where
  "is_digit c = list_ex (\<lambda>z. z \<le> c \<and> c < z + 10) decimal_zeros"

text \<open>
  \<open>(.+)$\<close> tried at the start of \<open>r\<close>: the dot matches every character but the
  newline (code point 10), and \<open>$\<close> matches at the end of the string or before a
  newline that ends it. The group is the run of characters before the first newline; a
  shorter run would be followed by a character that is no newline, where \<open>$\<close> fails.
\<close>

definition dot_plus_end :: "int list \<Rightarrow> int list option" where
  "dot_plus_end r =
     (let g = takeWhile (\<lambda>c. c \<noteq> 10) r; rest = dropWhile (\<lambda>c. c \<noteq> 10) r in
      if g \<noteq> [] \<and> (rest = [] \<or> rest = [10]) then Some g else None)"

text \<open>\<open>a_(.+)$\<close> tried at the start of \<open>s\<close>; the result is group 1.\<close>

definition re_a_at :: "int list \<Rightarrow> int list option" where
  "re_a_at s = (if prefix (codepoints ''a_'') s then dot_plus_end (drop 2 s) else None)"

text \<open>
  \<open>DefineSprite_(\d+)_(.+)$\<close> tried at the start of \<open>s\<close>; the result is group 2. The
  digits are the whole run of digits: after a shorter run the next character is a digit,
  not the underscore.
\<close>

definition re_sprite_at :: "int list \<Rightarrow> int list option" where
  "re_sprite_at s =
     (if prefix (codepoints ''DefineSprite_'') s then
        (let t = drop 13 s; ds = takeWhile is_digit t; u = dropWhile is_digit t in
         if ds \<noteq> [] \<and> prefix (codepoints ''_'') u then dot_plus_end (drop 1 u) else None)
      else None)"

text \<open>\<open>re.search\<close>: the pattern is tried at every position, the leftmost first.\<close>

fun re_search :: "('c list \<Rightarrow> 'a option) \<Rightarrow> 'c list \<Rightarrow> 'a option" where
  "re_search m [] = m []"
| "re_search m (c # cs) =
     (case m (c # cs) of Some g \<Rightarrow> Some g | None \<Rightarrow> re_search m cs)"

definition extract_proper_name :: "int list \<Rightarrow> int list" where
  "extract_proper_name folder_name =
     (case re_search re_a_at folder_name of
        Some result \<Rightarrow> result
      | None \<Rightarrow>
          (case re_search re_sprite_at folder_name of
             Some result \<Rightarrow> result
           | None \<Rightarrow> folder_name))"

section \<open>The file system\<close>

text \<open>
  A \<open>pathlib.Path\<close> is the list of its components below one fixed root; the empty
  path is the root itself (the current directory of \<open>rename_sprites.py\<close>). Two paths
  are the same file exactly when the lists are equal, as \<open>Path.__eq__\<close> compares them.
  Links are outside the model, and a path of the file system has no component \<open>.\<close> or
  \<open>..\<close>: where the code can make a path with one, out of the name of a sprite folder,
  \<open>subfolder_of\<close> says which path it stands for.

  A node is a regular file with its content (data and metadata, which \<open>shutil.copy2\<close>
  copies together) or a directory. The file system is an association list from paths
  to nodes; the order of the entries is the order in which \<open>os.listdir\<close> and
  \<open>Path.iterdir\<close> report them, which no caller may rely on.
\<close>

type_synonym path = "string list"

datatype node = File string | Dir

type_synonym fs = "(path \<times> node) list"

definition lookup :: "fs \<Rightarrow> path \<Rightarrow> node option" where
  "lookup fs p = (if p = [] then Some Dir else map_of fs p)"

definition is_file :: "fs \<Rightarrow> path \<Rightarrow> bool" where
  "is_file fs p = (case lookup fs p of Some (File c) \<Rightarrow> True | _ \<Rightarrow> False)"

definition is_dir :: "fs \<Rightarrow> path \<Rightarrow> bool" where
  "is_dir fs p = (lookup fs p = Some Dir)"

text \<open>
  \<open>p / name\<close>. The right operand is always one component: a name out of a directory
  listing, or a category or file name made from one.
\<close>

definition joinpath :: "path \<Rightarrow> string \<Rightarrow> path" where
  "joinpath p name = p @ [name]"

text \<open>\<open>os.listdir(d)\<close>, and the names \<open>Path(d).iterdir()\<close> walks through.\<close>

definition listdir :: "fs \<Rightarrow> path \<Rightarrow> error + string list" where
  "listdir fs d =
     (case lookup fs d of
        None \<Rightarrow> Inl FileNotFoundError
      | Some (File c) \<Rightarrow> Inl NotADirectoryError
      | Some Dir \<Rightarrow> Inr (map (last \<circ> fst) (filter (\<lambda>(p, n). p \<noteq> [] \<and> butlast p = d) fs)))"

text \<open>
  \<open>Path.mkdir(exist_ok=True)\<close>, with \<open>parents=False\<close>: an existing directory is
  accepted, an existing file is not, and the parent must be a directory.
\<close>

definition mkdir_exist_ok :: "path \<Rightarrow> fs \<Rightarrow> (error + unit) \<times> fs" where
  "mkdir_exist_ok p fs =
     (case lookup fs p of
        Some Dir \<Rightarrow> (Inr (), fs)
      | Some (File c) \<Rightarrow> (Inl FileExistsError, fs)
      | None \<Rightarrow>
          (case lookup fs (butlast p) of
             None \<Rightarrow> (Inl FileNotFoundError, fs)
           | Some (File c) \<Rightarrow> (Inl NotADirectoryError, fs)
           | Some Dir \<Rightarrow> (Inr (), fs @ [(p, Dir)])))"

text \<open>
  \<open>shutil.copy2(src, dst)\<close>: a destination that is a directory stands for the file of
  the source's name inside it; source and destination must not be the same existing
  file; the source is opened for reading, then the destination for writing, which
  creates it or replaces its content.
\<close>

definition copy2 :: "path \<Rightarrow> path \<Rightarrow> fs \<Rightarrow> (error + unit) \<times> fs" where
  "copy2 src dst0 fs =
     (let dst = (if is_dir fs dst0 then joinpath dst0 (last src) else dst0) in
      if dst = src \<and> lookup fs src \<noteq> None then (Inl SameFileError, fs)
      else
        (case lookup fs src of
           None \<Rightarrow> (Inl FileNotFoundError, fs)
         | Some Dir \<Rightarrow> (Inl IsADirectoryError, fs)
         | Some (File c) \<Rightarrow>
             (case lookup fs dst of
                Some Dir \<Rightarrow> (Inl IsADirectoryError, fs)
              | Some (File c') \<Rightarrow> (Inr (), AList.update dst (File c) fs)
              | None \<Rightarrow>
                  (case lookup fs (butlast dst) of
                     None \<Rightarrow> (Inl FileNotFoundError, fs)
                   | Some (File c') \<Rightarrow> (Inl NotADirectoryError, fs)
                   | Some Dir \<Rightarrow> (Inr (), fs @ [(dst, File c)])))))"

text \<open>\<open>Path.unlink()\<close>.\<close>

definition unlink :: "path \<Rightarrow> fs \<Rightarrow> (error + unit) \<times> fs" where
  "unlink p fs =
     (case lookup fs p of
        None \<Rightarrow> (Inl FileNotFoundError, fs)
      | Some Dir \<Rightarrow> (Inl IsADirectoryError, fs)
      | Some (File c) \<Rightarrow> (Inr (), AList.delete p fs))"

text \<open>
  \<open>str.lower\<close> on 8-bit characters: the letters A to Z, and the capital letters of
  Latin-1, move up by 32.
\<close>

definition lower_char :: "char \<Rightarrow> char" where
  "lower_char c =
     (let n = (of_char c :: nat) in
      if (65 \<le> n \<and> n \<le> 90) \<or> (192 \<le> n \<and> n \<le> 222 \<and> n \<noteq> 215)
      then char_of (n + 32) else c)"

definition str_lower :: "string \<Rightarrow> string" where
  "str_lower s = map lower_char s"

text \<open>
  \<open>Path.suffix\<close> of a file name: from the last dot on, when that dot is neither the
  first nor the last character.
\<close>

definition path_suffix :: "string \<Rightarrow> string" where
  "path_suffix name =
     (let i = rfind CHR ''.'' name in
      if 0 < i \<and> i < int (length name) - 1 then drop (nat i) name else [])"

section \<open>organize_files.py: organize_files and delete_non_foldered_files\<close>

text \<open>Lines 91 to 92 and 153 to 154: \<open>None\<close> stands for the one extension \<open>.svg\<close>.\<close>

definition default_file_types :: "string list option \<Rightarrow> string list" where
  "default_file_types file_types = (case file_types of None \<Rightarrow> [''.svg''] | Some ts \<Rightarrow> ts)"

text \<open>
  Lines 95 to 99: the regular files among the entries of the directory that pass the
  filter \<open>not file_types or item.suffix.lower() in file_types\<close>.
\<close>

definition select_files :: "path \<Rightarrow> string list \<Rightarrow> fs \<Rightarrow> string list \<Rightarrow> path list" where
  "select_files directory_path file_types fs names =
     filter
       (\<lambda>item. is_file fs item \<and>
          (file_types = [] \<or> str_lower (path_suffix (last item)) \<in> set file_types))
       (map (joinpath directory_path) names)"

text \<open>
  Lines 104 to 108: \<open>categories[category].append(file_path)\<close> on a dictionary that
  keeps its keys in the order of their first insertion.
\<close>

fun group_add ::
  "string \<Rightarrow> path \<Rightarrow> (string \<times> path list) list \<Rightarrow> (string \<times> path list) list" where
  "group_add category file_path [] = [(category, [file_path])]"
| "group_add category file_path ((k, file_paths) # categories) =
     (if k = category then (k, file_paths @ [file_path]) # categories
      else (k, file_paths) # group_add category file_path categories)"

fun group_files ::
  "path list \<Rightarrow> (string \<times> path list) list \<Rightarrow> error + (string \<times> path list) list" where
  "group_files [] categories = Inr categories"
| "group_files (file_path # files) categories =
     (case extract_category (last file_path) of
        Inl e \<Rightarrow> Inl e
      | Inr category \<Rightarrow> group_files files (group_add category file_path categories))"

text \<open>Lines 122 to 134: the files of one category.\<close>

fun copy_files :: "bool \<Rightarrow> path \<Rightarrow> path list \<Rightarrow> fs \<Rightarrow> (error + unit) \<times> fs" where
  "copy_files dry_run category_dir [] fs = (Inr (), fs)"
| "copy_files dry_run category_dir (file_path # file_paths) fs =
     (let dest_path = joinpath category_dir (last file_path) in
      if dry_run then copy_files dry_run category_dir file_paths fs
      else if file_path = dest_path then copy_files dry_run category_dir file_paths fs
      else
        (case copy2 file_path dest_path fs of
           (Inl e, fs') \<Rightarrow> (Inl e, fs')
         | (Inr u, fs') \<Rightarrow> copy_files dry_run category_dir file_paths fs'))"

text \<open>Lines 113 to 134: one folder for every category, then its files.\<close>

fun move_categories ::
  "bool \<Rightarrow> path \<Rightarrow> (string \<times> path list) list \<Rightarrow> fs \<Rightarrow> (error + unit) \<times> fs" where
  "move_categories dry_run output_dir [] fs = (Inr (), fs)"
| "move_categories dry_run output_dir ((category, file_paths) # categories) fs =
     (let category_dir = joinpath output_dir category in
      case (if \<not> dry_run then mkdir_exist_ok category_dir fs else (Inr (), fs)) of
        (Inl e, fs') \<Rightarrow> (Inl e, fs')
      | (Inr u, fs') \<Rightarrow>
          (case copy_files dry_run category_dir file_paths fs' of
             (Inl e, fs'') \<Rightarrow> (Inl e, fs'')
           | (Inr u, fs'') \<Rightarrow> move_categories dry_run output_dir categories fs''))"

text \<open>Lines 158 to 163: the loop of \<open>delete_non_foldered_files\<close>.\<close>

fun delete_matching ::
  "path \<Rightarrow> string list \<Rightarrow> string list \<Rightarrow> fs \<Rightarrow> (error + unit) \<times> fs" where
  "delete_matching directory_path file_types [] fs = (Inr (), fs)"
| "delete_matching directory_path file_types (name # names) fs =
     (let item = joinpath directory_path name in
      if is_file fs item \<and> str_lower (path_suffix name) \<in> set file_types then
        (case unlink item fs of
           (Inl e, fs') \<Rightarrow> (Inl e, fs')
         | (Inr u, fs') \<Rightarrow> delete_matching directory_path file_types names fs')
      else delete_matching directory_path file_types names fs)"

definition delete_non_foldered_files ::
  "path \<Rightarrow> string list option \<Rightarrow> fs \<Rightarrow> (error + unit) \<times> fs" where
  "delete_non_foldered_files directory_path file_types0 fs =
     (let file_types = default_file_types file_types0 in
      case listdir fs directory_path of
        Inl e \<Rightarrow> (Inl e, fs)
      | Inr names \<Rightarrow> delete_matching directory_path file_types names fs)"

text \<open>Lines 84 to 88: the output directory is made before \<open>dry_run\<close> is looked at.\<close>

definition prepare_output :: "path \<Rightarrow> path option \<Rightarrow> fs \<Rightarrow> (error + path) \<times> fs" where
  "prepare_output directory_path output_dir fs =
     (case output_dir of
        None \<Rightarrow> (Inr directory_path, fs)
      | Some out \<Rightarrow>
          (case mkdir_exist_ok out fs of
             (Inl e, fs') \<Rightarrow> (Inl e, fs')
           | (Inr u, fs') \<Rightarrow> (Inr out, fs')))"

text \<open>Lines 90 to 99: the files to organize.\<close>

definition files_to_organize :: "path \<Rightarrow> string list option \<Rightarrow> fs \<Rightarrow> error + path list" where
  "files_to_organize directory_path file_types0 fs =
     (case listdir fs directory_path of
        Inl e \<Rightarrow> Inl e
      | Inr names \<Rightarrow>
          Inr (select_files directory_path (default_file_types file_types0) fs names))"

text \<open>Lines 81 to 136: everything before the deletion of the originals.\<close>

definition copy_stage ::
  "path \<Rightarrow> path option \<Rightarrow> string list option \<Rightarrow> bool \<Rightarrow> fs \<Rightarrow> (error + unit) \<times> fs" where
  "copy_stage directory_path output_dir0 file_types0 dry_run fs =
     (case prepare_output directory_path output_dir0 fs of
        (Inl e, fs1) \<Rightarrow> (Inl e, fs1)
      | (Inr output_dir, fs1) \<Rightarrow>
          (case files_to_organize directory_path file_types0 fs1 of
             Inl e \<Rightarrow> (Inl e, fs1)
           | Inr files \<Rightarrow>
               (case group_files files [] of
                  Inl e \<Rightarrow> (Inl e, fs1)
                | Inr categories \<Rightarrow> move_categories dry_run output_dir categories fs1)))"

definition organize_files ::
  "path \<Rightarrow> path option \<Rightarrow> string list option \<Rightarrow> bool \<Rightarrow> bool \<Rightarrow> fs \<Rightarrow> (error + unit) \<times> fs"
  where
  "organize_files directory_path output_dir file_types dry_run delete_originals fs =
     (case copy_stage directory_path output_dir file_types dry_run fs of
        (Inl e, fs') \<Rightarrow> (Inl e, fs')
      | (Inr u, fs') \<Rightarrow>
          if delete_originals \<and> \<not> dry_run
          then delete_non_foldered_files directory_path (Some (default_file_types file_types)) fs'
          else (Inr (), fs'))"

text \<open>A small source directory, for the examples below.\<close>

definition fs_example :: fs where
  "fs_example =
     [([''sprites''], Dir),
      ([''sprites'', ''_FrameA.svg''], File ''a''),
      ([''sprites'', ''notes.txt''], File ''n''),
      ([''sprites'', ''sub''], Dir),
      ([''sprites'', ''sub'', ''x.svg''], File ''x'')]"

text \<open>
  The entries that a run without \<open>dry_run\<close> adds for one category, and for all of
  them, when nothing stands yet where the folders of the categories go: the folder, then
  one copy per file, in the order of the loops.
\<close>

definition category_entries :: "fs \<Rightarrow> path \<Rightarrow> string \<times> path list \<Rightarrow> fs" where
  "category_entries fs output_dir cf =
     (joinpath output_dir (fst cf), Dir) #
     map (\<lambda>file_path.
            (joinpath (joinpath output_dir (fst cf)) (last file_path), the (lookup fs file_path)))
       (snd cf)"

definition planned_entries :: "fs \<Rightarrow> path \<Rightarrow> (string \<times> path list) list \<Rightarrow> fs" where
  "planned_entries fs output_dir categories =
     concat (map (category_entries fs output_dir) categories)"

text \<open>
  A flat source directory with two categories, and a source directory whose folder
  \<open>Frame\<close> is left from an earlier run.
\<close>

definition fs_flat :: fs where
  "fs_flat =
     [([''sprites''], Dir),
      ([''sprites'', ''_FrameA.svg''], File ''a''),
      ([''sprites'', ''_DoodadC.svg''], File ''c''),
      ([''sprites'', ''_FrameB.svg''], File ''b'')]"

definition fs_regrouped :: fs where
  "fs_regrouped =
     [([''sprites''], Dir),
      ([''sprites'', ''_FrameA.svg''], File ''a''),
      ([''sprites'', ''Frame''], Dir),
      ([''sprites'', ''Frame'', ''old.svg''], File ''o'')]"

section \<open>rename_sprites.py: main\<close>

text \<open>
  \<open>f"{i:02d}"\<close>: the decimal digits of \<open>i\<close>, with zeros in front up to a width of
  two. Three digits are not cut.
\<close>

fun dec_digits :: "nat \<Rightarrow> string" where
  "dec_digits n =
     (if n < 10 then [char_of (48 + n)]
      else dec_digits (n div 10) @ [char_of (48 + n mod 10)])"

declare dec_digits.simps [simp del]

definition format_02d :: "nat \<Rightarrow> string" where
  "format_02d i = replicate (2 - length (dec_digits i)) CHR ''0'' @ dec_digits i"

text \<open>
  Lines 62 to 67. \<open>subfolder\<close> is \<open>None\<close> unless the folder has more than one file;
  \<open>None / new_filename\<close> would raise TypeError.
\<close>

definition dest_path_for ::
  "path \<Rightarrow> path option \<Rightarrow> string \<Rightarrow> nat \<Rightarrow> nat \<Rightarrow> error + path" where
  "dest_path_for output_dir subfolder proper_name num_files i =
     (if num_files = 1 then Inr (joinpath output_dir (proper_name @ ''.svg''))
      else
        (case subfolder of
           None \<Rightarrow> Inl TypeError
         | Some sub \<Rightarrow> Inr (joinpath sub (proper_name @ ''_'' @ format_02d i @ ''.svg''))))"

text \<open>Lines 58 to 71: \<open>for i, svg_file in enumerate(sorted(svg_files), 1)\<close>.\<close>

fun copy_svgs ::
  "string \<Rightarrow> path \<Rightarrow> path option \<Rightarrow> string \<Rightarrow> nat \<Rightarrow> nat \<Rightarrow> string list \<Rightarrow> fs \<Rightarrow>
   (error + unit) \<times> fs" where
  "copy_svgs folder output_dir subfolder proper_name num_files i [] fs = (Inr (), fs)"
| "copy_svgs folder output_dir subfolder proper_name num_files i (svg_file # svg_files) fs =
     (let source_path = joinpath [folder] svg_file in
      case dest_path_for output_dir subfolder proper_name num_files i of
        Inl e \<Rightarrow> (Inl e, fs)
      | Inr dest_path \<Rightarrow>
          (case copy2 source_path dest_path fs of
             (Inl e, fs') \<Rightarrow> (Inl e, fs')
           | (Inr u, fs') \<Rightarrow>
               copy_svgs folder output_dir subfolder proper_name num_files (Suc i) svg_files fs'))"

text \<open>Lines 45 to 46: the entries of the folder whose lower-cased name ends with \<open>.svg\<close>.\<close>

definition svg_files_of :: "string list \<Rightarrow> string list" where
  "svg_files_of names = filter (\<lambda>f. suffix ''.svg'' (str_lower f)) names"

text \<open>
  Lines 54 to 55, \<open>output_dir / proper_name\<close> as the place that \<open>mkdir\<close> and \<open>copy2\<close>
  reach. The proper name is the end of the name of a folder, and the folders \<open>a_.\<close> and
  \<open>a_..\<close> have the proper names \<open>.\<close> and \<open>..\<close>: \<open>pathlib\<close> drops the component \<open>.\<close>,
  so that the place is the output directory itself, and keeps \<open>..\<close>, which the operating
  system follows from the output directory, a directory that has to be there, to its
  parent. Every other proper name is the name of an entry of the output directory.
  (The root has no parent in the model and stands for it; \<open>main\<close> never asks for it,
  its output directory is one level below the root.)
\<close>

definition subfolder_of :: "fs \<Rightarrow> path \<Rightarrow> string \<Rightarrow> error + path" where
  "subfolder_of fs output_dir proper_name =
     (if proper_name = ''.'' then Inr output_dir
      else if proper_name = ''..'' then
        (case lookup fs output_dir of
           None \<Rightarrow> Inl FileNotFoundError
         | Some (File c) \<Rightarrow> Inl NotADirectoryError
         | Some Dir \<Rightarrow> Inr (butlast output_dir))
      else Inr (joinpath output_dir proper_name))"

text \<open>
  Lines 42 to 71: the body of the loop over the folders. \<open>folder\<close> is a name out of the
  listing of the root, an 8-bit string as all names of the file system are;
  \<open>extract_proper_name\<close> gets its code points and gives back some of them.
\<close>

definition process_folder :: "path \<Rightarrow> string \<Rightarrow> fs \<Rightarrow> (error + unit) \<times> fs" where
  "process_folder output_dir folder fs =
     (let proper_name = chars (extract_proper_name (codepoints folder)) in
      case listdir fs [folder] of
        Inl e \<Rightarrow> (Inl e, fs)
      | Inr names \<Rightarrow>
          (let svg_files = svg_files_of names; num_files = length svg_files in
           case (if num_files > 1
                 then (case subfolder_of fs output_dir proper_name of
                         Inl e \<Rightarrow> (Inl e, fs)
                       | Inr sub \<Rightarrow>
                           (case mkdir_exist_ok sub fs of
                              (Inl e, fs') \<Rightarrow> (Inl e, fs')
                            | (Inr u, fs') \<Rightarrow> (Inr (Some sub), fs')))
                 else (Inr None, fs)) of
             (Inl e, fs1) \<Rightarrow> (Inl e, fs1)
           | (Inr subfolder, fs1) \<Rightarrow>
               copy_svgs folder output_dir subfolder proper_name num_files 1
                 (sort svg_files) fs1))"

fun process_folders :: "path \<Rightarrow> string list \<Rightarrow> fs \<Rightarrow> (error + unit) \<times> fs" where
  "process_folders output_dir [] fs = (Inr (), fs)"
| "process_folders output_dir (folder # directories) fs =
     (case process_folder output_dir folder fs of
        (Inl e, fs') \<Rightarrow> (Inl e, fs')
      | (Inr u, fs') \<Rightarrow> process_folders output_dir directories fs')"

text \<open>
  \<open>main\<close>, run in the root: the output directory, then every directory of the root
  whose name does not start with \<open>sprites_done\<close>.
\<close>

definition main :: "fs \<Rightarrow> (error + unit) \<times> fs" where
  "main fs =
     (let output_dir = [''sprites_done''] in
      case mkdir_exist_ok output_dir fs of
        (Inl e, fs1) \<Rightarrow> (Inl e, fs1)
      | (Inr u, fs1) \<Rightarrow>
          (case listdir fs1 [] of
             Inl e \<Rightarrow> (Inl e, fs1)
           | Inr names \<Rightarrow>
               process_folders output_dir
                 (filter (\<lambda>d. is_dir fs1 [d] \<and> \<not> prefix ''sprites_done'' d) names) fs1))"

text \<open>
  The entries that the loop of lines 58 to 71 adds to a new subfolder: the files in
  their order, numbered from \<open>i\<close>.
\<close>

definition numbered_entries :: "fs \<Rightarrow> string \<Rightarrow> path \<Rightarrow> string \<Rightarrow> nat \<Rightarrow> string list \<Rightarrow> fs" where
  "numbered_entries fs folder sub proper_name i svg_files =
     map (\<lambda>(k, svg_file).
            (joinpath sub (proper_name @ ''_'' @ format_02d k @ ''.svg''),
             the (lookup fs (joinpath [folder] svg_file))))
       (enumerate i svg_files)"

text \<open>A sprite folder with a hundred frames, \<open>a.svg\<close>, \<open>aa.svg\<close> and so on.\<close>

definition hundred_names :: "string list" where
  "hundred_names = map (\<lambda>i. replicate i CHR ''a'' @ ''.svg'') [1..<101]"

definition fs_hundred :: fs where
  "fs_hundred =
     ([''sprites_done''], Dir) # ([''a_X''], Dir) #
     map (\<lambda>n. ([''a_X'', n], File n)) hundred_names"

text \<open>Sprite folders with one frame, with three frames and with none.\<close>

definition fs_sprites :: fs where
  "fs_sprites =
     [([''sprites_done''], Dir),
      ([''DefineSprite_2_a_Waist''], Dir),
      ([''DefineSprite_2_a_Waist'', ''1.svg''], File ''one''),
      ([''DefineSprite_3_Torso''], Dir),
      ([''DefineSprite_3_Torso'', ''2.svg''], File ''x2''),
      ([''DefineSprite_3_Torso'', ''10.SVG''], File ''x10''),
      ([''DefineSprite_3_Torso'', ''1.svg''], File ''x1''),
      ([''empty''], Dir),
      ([''empty'', ''a.png''], File ''p'')]"

text \<open>
  Sprite folders that do not fan out as planned: two with the proper names \<open>..\<close> and
  \<open>.\<close>, one whose subfolder is there already with a file in it, one whose output name
  is taken by a directory, and two with a directory named like a frame.
\<close>

definition fs_odd :: fs where
  "fs_odd =
     [([''sprites_done''], Dir),
      ([''sprites_done'', ''Old''], Dir),
      ([''sprites_done'', ''Old'', ''old.svg''], File ''o''),
      ([''sprites_done'', ''One.svg''], Dir),
      ([''a_..''], Dir),
      ([''a_..'', ''1.svg''], File ''p1''),
      ([''a_..'', ''2.svg''], File ''p2''),
      ([''a_Old''], Dir),
      ([''a_Old'', ''1.svg''], File ''q1''),
      ([''a_Old'', ''2.svg''], File ''q2''),
      ([''a_One''], Dir),
      ([''a_One'', ''1.svg''], File ''r1''),
      ([''a_Dir''], Dir),
      ([''a_Dir'', ''d.svg''], Dir),
      ([''a_Two''], Dir),
      ([''a_Two'', ''1.svg''], File ''s1''),
      ([''a_Two'', ''d.svg''], Dir),
      ([''a_.''], Dir),
      ([''a_.'', ''1.svg''], File ''t1''),
      ([''a_.'', ''2.svg''], File ''t2'')]"


section \<open>Lemmas on strings\<close>

lemma split_char_not_Nil: "split_char c s \<noteq> []"
  by (induction s) (auto split: list.splits)

lemma split_char_no_sep: "c \<notin> set s \<Longrightarrow> split_char c s = [s]"
  by (induction s) auto

lemma split_char_append_sep:
  "tl (split_char c (xs @ c # seg)) \<noteq> [] \<and>
   last (split_char c (xs @ c # seg)) = last (split_char c seg)"
proof (induction xs)
  case Nil
  show ?case by (simp add: split_char_not_Nil)
next
  case (Cons x xs)
  then show ?case
    by (cases "split_char c (xs @ c # seg)") (auto simp: split_char_not_Nil)
qed

lemma last_split_char:
  "c \<notin> set seg \<Longrightarrow> last (split_char c (xs @ c # seg)) = seg"
  by (simp add: split_char_append_sep split_char_no_sep)

lemma rfind_absent: "c \<notin> set s \<Longrightarrow> rfind c s = - 1"
  by (simp add: rfind_def)

lemma basename_no_slash: "CHR ''/'' \<notin> set p \<Longrightarrow> basename p = p"
  by (simp add: basename_def rfind_absent)

lemma length_takeWhile_neq: "c \<in> set xs \<Longrightarrow> length (takeWhile (\<lambda>x. x \<noteq> c) xs) < length xs"
  by (induction xs) auto

lemma rfind_bounds: "c \<in> set s \<Longrightarrow> 0 \<le> rfind c s \<and> rfind c s < int (length s)"
  using length_takeWhile_neq[of c "rev s"] by (simp add: rfind_def)

lemma rfind_ge: "- 1 \<le> rfind c s"
  using rfind_bounds[of c s] by (cases "c \<in> set s") (auto simp: rfind_absent)

lemma fst_splitext_Nil: "(fst (splitext p) = []) = (p = [])"
proof (cases "fst (splitext p) = p")
  case True
  then show ?thesis by simp
next
  case False
  then have cut: "fst (splitext p) = take (nat (rfind CHR ''.'' p)) p"
    and ex: "list_ex (\<lambda>c. c \<noteq> CHR ''.'')
         (take (nat (rfind CHR ''.'' p - (rfind CHR ''/'' p + 1))) (drop (nat (rfind CHR ''/'' p + 1)) p))"
    by (auto simp: splitext_def Let_def split: if_splits)
  from ex have "p \<noteq> []" by auto
  from ex have "nat (rfind CHR ''.'' p - (rfind CHR ''/'' p + 1)) \<noteq> 0"
    by (auto simp: list_ex_iff intro!: Nat.gr0I)
  with rfind_ge[of "CHR ''/''" p] have "0 < nat (rfind CHR ''.'' p)" by linarith
  with cut \<open>p \<noteq> []\<close> show ?thesis by (cases p) auto
qed

lemma find_sub_Some_iff:
  "find_sub sep s = Some i \<longleftrightarrow>
     i \<le> length s \<and> prefix sep (drop i s) \<and> (\<forall>j<i. \<not> prefix sep (drop j s))"
proof (induction s arbitrary: i)
  case Nil
  show ?case by auto
next
  case (Cons c cs)
  show ?case
  proof (cases "prefix sep (c # cs)")
    case True
    then show ?thesis by (cases i) auto
  next
    case False
    show ?thesis
    proof (cases i)
      case 0
      with False show ?thesis by simp
    next
      case (Suc k)
      have "(\<forall>j<Suc k. \<not> prefix sep (drop j (c # cs))) = (\<forall>j<k. \<not> prefix sep (drop j cs))"
        using False by (auto simp: less_Suc_eq_0_disj)
      with False Suc Cons.IH[of k] show ?thesis by auto
    qed
  qed
qed

lemma find_sub_None_iff:
  "find_sub sep s = None \<longleftrightarrow> (\<forall>j\<le>length s. \<not> prefix sep (drop j s))"
proof (induction s)
  case Nil
  show ?case by auto
next
  case (Cons c cs)
  have "(\<forall>j\<le>length (c # cs). \<not> prefix sep (drop j (c # cs))) =
        (\<not> prefix sep (c # cs) \<and> (\<forall>j\<le>length cs. \<not> prefix sep (drop j cs)))"
  proof (intro iffI conjI allI impI)
    assume a: "\<forall>j\<le>length (c # cs). \<not> prefix sep (drop j (c # cs))"
    from a have "\<not> prefix sep (drop 0 (c # cs))" by blast
    then show "\<not> prefix sep (c # cs)" by simp
    fix j assume "j \<le> length cs"
    then have "Suc j \<le> length (c # cs)" by simp
    with a have "\<not> prefix sep (drop (Suc j) (c # cs))" by blast
    then show "\<not> prefix sep (drop j cs)" by simp
  next
    fix j
    assume a: "\<not> prefix sep (c # cs) \<and> (\<forall>j\<le>length cs. \<not> prefix sep (drop j cs))"
      and j: "j \<le> length (c # cs)"
    show "\<not> prefix sep (drop j (c # cs))"
    proof (cases j)
      case 0
      with a show ?thesis by simp
    next
      case (Suc k)
      with a j show ?thesis by simp
    qed
  qed
  with Cons show ?case by auto
qed

lemma re_search_leftmost:
  "i \<le> length s \<Longrightarrow> m (drop i s) = Some g \<Longrightarrow> (\<forall>j<i. m (drop j s) = None) \<Longrightarrow>
   re_search m s = Some g"
proof (induction s arbitrary: i)
  case Nil
  then show ?case by simp
next
  case (Cons c cs)
  show ?case
  proof (cases i)
    case 0
    with Cons.prems show ?thesis by simp
  next
    case (Suc k)
    with Cons.prems have "m (c # cs) = None" by fastforce
    moreover have "re_search m cs = Some g"
    proof (rule Cons.IH[of k])
      show "k \<le> length cs" using Cons.prems Suc by simp
      show "m (drop k cs) = Some g" using Cons.prems Suc by simp
      show "\<forall>j<k. m (drop j cs) = None"
      proof (intro allI impI)
        fix j assume "j < k"
        then have "Suc j < i" using Suc by simp
        with Cons.prems(3) have "m (drop (Suc j) (c # cs)) = None" by blast
        then show "m (drop j cs) = None" by simp
      qed
    qed
    ultimately show ?thesis by simp
  qed
qed

lemma re_search_none:
  "(\<forall>j\<le>length s. m (drop j s) = None) \<Longrightarrow> re_search m s = None"
proof (induction s)
  case Nil
  then show ?case by simp
next
  case (Cons c cs)
  from Cons.prems have "m (c # cs) = None" by (metis drop0 le0)
  moreover have "\<forall>j\<le>length cs. m (drop j cs) = None"
  proof (intro allI impI)
    fix j assume "j \<le> length cs"
    then have "Suc j \<le> length (c # cs)" by simp
    with Cons.prems have "m (drop (Suc j) (c # cs)) = None" by blast
    then show "m (drop j cs) = None" by simp
  qed
  ultimately show ?case using Cons.IH by simp
qed

lemma length_codepoints [simp]: "length (codepoints s) = length s"
  by (simp add: codepoints_def)

lemma chars_codepoints [simp]: "chars (codepoints s) = s"
  by (simp add: chars_def codepoints_def comp_def)

lemma codepoints_append: "codepoints (s @ t) = codepoints s @ codepoints t"
  by (simp add: codepoints_def)

lemma dot_plus_end_plain:
  assumes "10 \<notin> set r"
  shows "dot_plus_end r = (if r = [] then None else Some r)"
proof -
  from assms have tw: "takeWhile (\<lambda>c. c \<noteq> 10) r = r"
    by (induction r) auto
  from assms have dw: "dropWhile (\<lambda>c. c \<noteq> 10) r = []"
    by (induction r) auto
  show ?thesis unfolding dot_plus_end_def Let_def tw dw by simp
qed

lemma re_a_at_plain:
  assumes "10 \<notin> set t"
  shows "re_a_at t =
           (if prefix (codepoints ''a_'') t \<and> 2 < length t then Some (drop 2 t) else None)"
proof -
  from assms have "10 \<notin> set (drop 2 t)" by (auto dest: in_set_dropD)
  then show ?thesis by (simp add: re_a_at_def dot_plus_end_plain)
qed

lemma underscore_no_digit: "\<not> is_digit 95"
  by (simp add: is_digit_def decimal_zeros_def)

lemma codepoints_underscore: "codepoints ''_'' = [95]"
  by (simp add: codepoints_def)

lemma re_sprite_at_form:
  assumes "10 \<notin> set rest" and "ds \<noteq> []" and "list_all is_digit ds" and "rest \<noteq> []"
  shows "re_sprite_at (codepoints ''DefineSprite_'' @ ds @ codepoints ''_'' @ rest) = Some rest"
proof -
  have tw: "takeWhile is_digit (ds @ 95 # rest) = ds"
    using assms(3) underscore_no_digit by (simp add: takeWhile_tail list_all_iff)
  have dw: "dropWhile is_digit (ds @ 95 # rest) = 95 # rest"
    using assms(3) underscore_no_digit by (simp add: dropWhile_append3 list_all_iff)
  show ?thesis
    using assms(1,2,4)
    by (simp add: re_sprite_at_def Let_def codepoints_underscore tw dw dot_plus_end_plain)
qed

lemma re_sprite_at_Some:
  assumes "re_sprite_at t = Some rest" and nl: "10 \<notin> set t"
  shows "\<exists>ds. t = codepoints ''DefineSprite_'' @ ds @ codepoints ''_'' @ rest \<and> ds \<noteq> [] \<and>
           list_all is_digit ds \<and> rest \<noteq> []"
proof -
  from assms have p: "prefix (codepoints ''DefineSprite_'') t"
    by (auto simp: re_sprite_at_def split: if_splits)
  then obtain t' where t: "t = codepoints ''DefineSprite_'' @ t'" by (auto simp: prefix_def)
  define ds where "ds = takeWhile is_digit t'"
  define u where "u = dropWhile is_digit t'"
  have t': "t' = ds @ u" by (simp add: ds_def u_def)
  have dr: "drop 13 t = t'" unfolding t by simp
  from assms(1) p have c: "ds \<noteq> [] \<and> prefix [95] u"
    and d: "dot_plus_end (drop 1 u) = Some rest"
    unfolding re_sprite_at_def Let_def dr ds_def u_def codepoints_underscore
    by (simp_all split: if_splits)
  from c obtain u' where u: "u = 95 # u'" by (auto simp: prefix_def)
  from nl have "10 \<notin> set u'" unfolding t t' u by simp
  with d u have r: "rest = u'" and rn: "rest \<noteq> []"
    by (auto simp: dot_plus_end_plain split: if_splits)
  have "list_all is_digit ds" unfolding ds_def by (simp add: list_all_iff) (meson set_takeWhileD)
  with c rn show ?thesis unfolding t t' u r codepoints_underscore by auto
qed

lemma re_search_Some:
  "re_search m s = Some g \<Longrightarrow> \<exists>i\<le>length s. m (drop i s) = Some g"
proof (induction s)
  case Nil
  then show ?case by simp
next
  case (Cons c cs)
  show ?case
  proof (cases "m (c # cs)")
    case (Some h)
    with Cons.prems have "m (drop 0 (c # cs)) = Some g" by simp
    then show ?thesis by blast
  next
    case None
    with Cons.prems have "re_search m cs = Some g" by simp
    from Cons.IH[OF this] obtain i where "i \<le> length cs" "m (drop i cs) = Some g" by blast
    then have "Suc i \<le> length (c # cs) \<and> m (drop (Suc i) (c # cs)) = Some g" by simp
    then show ?thesis by blast
  qed
qed

section \<open>Properties of extract_category\<close>

lemma extract_category_trim:
  "CHR ''/'' \<notin> set seg \<Longrightarrow> extract_category (dir @ CHR ''/'' # seg) = extract_category seg"
  by (simp add: extract_category_def index_last_def split_char_not_Nil last_split_char)

lemma extract_category_plain:
  "CHR ''/'' \<notin> set f \<Longrightarrow>
   extract_category f =
     (case first_pattern patterns f of
        Some category \<Rightarrow> Inr category
      | None \<Rightarrow>
          (case double_underscore_rule f of
             Inl e \<Rightarrow> Inl e
           | Inr (Some category) \<Rightarrow> Inr category
           | Inr None \<Rightarrow>
               (case leading_underscore_rule f of
                  Some category \<Rightarrow> Inr category
                | None \<Rightarrow> Inr (fst (splitext f)))))"
  by (simp add: extract_category_def basename_no_slash)

lemma first_pattern_chain:
  "first_pattern patterns s =
     (if re_match_kw ''IconArt'' s then Some ''IconArt''
      else if re_match_kw ''Frame'' s then Some ''Frame''
      else if re_match_kw ''Doodad'' s then Some ''Doodad''
      else if re_match_kw ''Window'' s then Some ''Window''
      else if re_match_kw ''Button'' s then Some ''Button''
      else None)"
  by (simp add: patterns_def)

lemma first_pattern_not_Nil: "first_pattern patterns s = Some c \<Longrightarrow> c \<noteq> []"
  by (auto simp: first_pattern_chain split: if_splits)

lemma re_match_alpha_not_Nil: "re_match_alpha s = Some g \<Longrightarrow> g \<noteq> []"
  by (auto simp: re_match_alpha_def Let_def split: if_splits)

lemma find_sub_le: "find_sub sep s = Some i \<Longrightarrow> i \<le> length s"
  by (induction s arbitrary: i) (auto split: if_splits)

lemma double_underscore_rule_found:
  "find_sub ''__'' f = Some i \<Longrightarrow>
   double_underscore_rule f =
     (case first_pattern patterns (drop (i + 2) f) of
        Some category \<Rightarrow> Inr (Some category)
      | None \<Rightarrow> Inr (re_match_alpha (drop (i + 2) f)))"
  by (simp add: double_underscore_rule_def contains_def index_at_def split_once_def
      split: option.splits)

lemma double_underscore_rule_cases:
  "double_underscore_rule f = Inr None \<or>
   (\<exists>c. double_underscore_rule f = Inr (Some c) \<and> c \<noteq> [])"
proof (cases "find_sub ''__'' f")
  case None
  then show ?thesis by (simp add: double_underscore_rule_def contains_def)
next
  case (Some i)
  show ?thesis
  proof (cases "first_pattern patterns (drop (i + 2) f)")
    case (Some c)
    with \<open>find_sub ''__'' f = Some i\<close> first_pattern_not_Nil[OF Some] show ?thesis
      by (simp add: double_underscore_rule_found)
  next
    case None
    with \<open>find_sub ''__'' f = Some i\<close> show ?thesis
      by (cases "re_match_alpha (drop (i + 2) f)")
        (auto simp: double_underscore_rule_found dest: re_match_alpha_not_Nil)
  qed
qed

lemma leading_underscore_rule_not_Nil: "leading_underscore_rule b = Some c \<Longrightarrow> c \<noteq> []"
  by (auto simp: leading_underscore_rule_def dest: re_match_alpha_not_Nil split: if_splits)

lemma extract_category_plain_total:
  assumes "CHR ''/'' \<notin> set f"
  shows "\<exists>c. extract_category f = Inr c \<and> (c = []) = (f = [])"
proof (cases "first_pattern patterns f")
  case (Some c)
  then have "f \<noteq> []"
    by (auto simp: first_pattern_chain re_match_kw_def split: if_splits)
  with Some first_pattern_not_Nil[OF Some] show ?thesis
    by (simp add: extract_category_plain[OF assms])
next
  case None
  note fp = None
  from double_underscore_rule_cases[of f] show ?thesis
  proof
    assume du: "double_underscore_rule f = Inr None"
    show ?thesis
    proof (cases "leading_underscore_rule f")
      case None
      with fp du show ?thesis
        by (simp add: extract_category_plain[OF assms] fst_splitext_Nil)
    next
      case (Some c)
      then have "f \<noteq> []" by (auto simp: leading_underscore_rule_def split: if_splits)
      with fp du Some leading_underscore_rule_not_Nil[OF Some] show ?thesis
        by (simp add: extract_category_plain[OF assms])
    qed
  next
    assume "\<exists>c. double_underscore_rule f = Inr (Some c) \<and> c \<noteq> []"
    then obtain c where du: "double_underscore_rule f = Inr (Some c)" and c: "c \<noteq> []" by blast
    from du have "f \<noteq> []" by (auto simp: double_underscore_rule_def contains_def split: if_splits)
    with fp du c show ?thesis by (simp add: extract_category_plain[OF assms])
  qed
qed

text \<open>
  C3, as amended. \<open>extract_category\<close> never raises: every string has a category, and
  the category of a non-empty string that does not end with a slash is non-empty.
\<close>

theorem extract_category_total:
  "\<exists>c. extract_category f = Inr c \<and> (f \<noteq> [] \<and> last f \<noteq> CHR ''/'' \<longrightarrow> c \<noteq> [])"
proof (cases "CHR ''/'' \<in> set f")
  case False
  then have "f = [] \<or> last f \<noteq> CHR ''/''" by (cases f rule: rev_cases) auto
  with extract_category_plain_total[OF False] show ?thesis by auto
next
  case True
  then obtain dir seg where f: "f = dir @ CHR ''/'' # seg" and seg: "CHR ''/'' \<notin> set seg"
    by (meson split_list_last)
  from seg have "(seg \<noteq> []) = (last f \<noteq> CHR ''/'')"
    unfolding f by (cases seg rule: rev_cases) auto
  moreover have "f \<noteq> []" using f by simp
  ultimately show ?thesis
    using extract_category_plain_total[OF seg] extract_category_trim[OF seg, of dir] f by auto
qed

text \<open>
  C3 as stated fails: \<open>"a/"\<close> is a non-empty string whose category is the empty string.
\<close>

theorem extract_category_total_counterexample:
  "''a/'' \<noteq> [] \<and> extract_category ''a/'' = Inr []"
  by code_simp

text \<open>
  A name that matches no pattern, and a path: both are non-empty and do not end with a
  slash, and both have a non-empty category.
\<close>

theorem extract_category_total_witness:
  "''Unknown123.svg'' \<noteq> [] \<and> last ''Unknown123.svg'' \<noteq> CHR ''/'' \<and>
   (\<exists>c. extract_category ''Unknown123.svg'' = Inr c \<and> c \<noteq> []) \<and>
   ''sprites/_FrameA.svg'' \<noteq> [] \<and> last ''sprites/_FrameA.svg'' \<noteq> CHR ''/'' \<and>
   (\<exists>c. extract_category ''sprites/_FrameA.svg'' = Inr c \<and> c \<noteq> [])"
  using extract_category_total[of "''Unknown123.svg''"]
    extract_category_total[of "''sprites/_FrameA.svg''"]
  by simp

text \<open>
  C2. The docstring and the specification give
  \<open>extract_category("DefineSprite_265__IconArtStoreFront14/1.svg") = "IconArt"\<close> and
  \<open>extract_category("DefineSprite_539__FrameBendBronze01/1.svg") = "Frame"\<close>. The code
  trims the name to \<open>1.svg\<close> before it looks for the double underscore, so both calls
  return \<open>"1"\<close>.
\<close>

theorem extract_category_docstring_paths:
  "extract_category ''DefineSprite_265__IconArtStoreFront14/1.svg'' = Inr ''1'' \<and>
   extract_category ''DefineSprite_539__FrameBendBronze01/1.svg'' = Inr ''1''"
  by code_simp

text \<open>
  C4, as amended. For a filename without a slash whose first double underscore stands at
  index \<open>i\<close>: when neither the filename nor the substring after that double
  underscore matches one of the five prefix patterns, and the substring starts with a
  letter, the category is the leading run of letters of the substring. In particular
  \<open>extract_category("DefineSprite_10__Zorblat99.svg") = "Zorblat"\<close>.
\<close>

theorem extract_category_fallback_run:
  assumes "CHR ''/'' \<notin> set f"
    and "find_sub ''__'' f = Some i"
    and "first_pattern patterns f = None"
    and "first_pattern patterns (drop (i + 2) f) = None"
    and "takeWhile is_alpha (drop (i + 2) f) \<noteq> []"
  shows "extract_category f = Inr (takeWhile is_alpha (drop (i + 2) f)) \<and>
         extract_category ''DefineSprite_10__Zorblat99.svg'' = Inr ''Zorblat''"
proof
  show "extract_category f = Inr (takeWhile is_alpha (drop (i + 2) f))"
    using assms(3-5)
    by (simp add: extract_category_plain[OF assms(1)] double_underscore_rule_found[OF assms(2)]
        re_match_alpha_def)
  show "extract_category ''DefineSprite_10__Zorblat99.svg'' = Inr ''Zorblat''"
    by code_simp
qed

text \<open>
  The hypotheses of C4 hold at \<open>"DefineSprite_10__Zorblat99.svg"\<close>, with the double
  underscore at index 15.
\<close>

theorem extract_category_fallback_run_witness:
  "CHR ''/'' \<notin> set ''DefineSprite_10__Zorblat99.svg'' \<and>
   find_sub ''__'' ''DefineSprite_10__Zorblat99.svg'' = Some 15 \<and>
   first_pattern patterns ''DefineSprite_10__Zorblat99.svg'' = None \<and>
   first_pattern patterns (drop (15 + 2) ''DefineSprite_10__Zorblat99.svg'') = None \<and>
   takeWhile is_alpha (drop (15 + 2) ''DefineSprite_10__Zorblat99.svg'') = ''Zorblat'' \<and>
   extract_category ''DefineSprite_10__Zorblat99.svg'' = Inr ''Zorblat''"
proof -
  have h1: "CHR ''/'' \<notin> set ''DefineSprite_10__Zorblat99.svg''" by simp
  have h2: "find_sub ''__'' ''DefineSprite_10__Zorblat99.svg'' = Some 15" by code_simp
  have h3: "first_pattern patterns ''DefineSprite_10__Zorblat99.svg'' = None" by code_simp
  have h4: "first_pattern patterns (drop (15 + 2) ''DefineSprite_10__Zorblat99.svg'') = None"
    by code_simp
  have h5: "takeWhile is_alpha (drop (15 + 2) ''DefineSprite_10__Zorblat99.svg'') = ''Zorblat''"
    by code_simp
  have h5': "takeWhile is_alpha (drop (15 + 2) ''DefineSprite_10__Zorblat99.svg'') \<noteq> []"
    unfolding h5 by simp
  from extract_category_fallback_run[OF h1 h2 h3 h4 h5'] h1 h2 h3 h4 h5 show ?thesis
    by simp
qed

text \<open>
  C4 as stated fails. In \<open>"Frame__Zorblat.svg"\<close> the substring after the double
  underscore matches no prefix pattern and its leading run of letters is
  \<open>"Zorblat"\<close>, but the filename itself matches the pattern \<open>Frame\<close>, which is
  tested first. In \<open>"x__9.svg"\<close> the substring has no leading letter, and the
  category is the filename without its extension, not the empty run.
\<close>

theorem extract_category_fallback_run_counterexample:
  "split_once ''__'' ''Frame__Zorblat.svg'' = [''Frame'', ''Zorblat.svg''] \<and>
   first_pattern patterns ''Zorblat.svg'' = None \<and>
   takeWhile is_alpha ''Zorblat.svg'' = ''Zorblat'' \<and>
   extract_category ''Frame__Zorblat.svg'' = Inr ''Frame'' \<and>
   split_once ''__'' ''x__9.svg'' = [''x'', ''9.svg''] \<and>
   first_pattern patterns ''9.svg'' = None \<and>
   takeWhile is_alpha ''9.svg'' = [] \<and>
   extract_category ''x__9.svg'' = Inr ''x__9''"
  by code_simp

lemma kw_unique:
  assumes "kw \<in> {''IconArt'', ''Frame'', ''Doodad'', ''Window'', ''Button''}"
    and "prefix kw seg \<or> prefix (CHR ''_'' # kw) seg"
  shows "first_pattern patterns seg = Some kw"
proof -
  from assms(2) obtain r where seg: "seg = kw @ r \<or> seg = CHR ''_'' # kw @ r"
    by (auto simp: prefix_def)
  from assms(1) have "kw = ''IconArt'' \<or> kw = ''Frame'' \<or> kw = ''Doodad'' \<or>
      kw = ''Window'' \<or> kw = ''Button''"
    by simp
  with seg show ?thesis
    by (elim disjE) (simp_all add: first_pattern_chain re_match_kw_def)
qed

text \<open>
  C5, as amended. The patterns are tested in the order of \<open>first_pattern_chain\<close>. When
  the last path segment of a filename (the filename itself when it has no slash) begins
  with one of the five keywords, after an optional underscore, the category is that
  keyword. In particular \<open>extract_category("FrameDoodadThing.svg") = "Frame"\<close>.
\<close>

theorem extract_category_prefix_keyword:
  assumes "f = dir @ seg"
    and "CHR ''/'' \<notin> set seg"
    and "dir = [] \<or> last dir = CHR ''/''"
    and "kw \<in> {''IconArt'', ''Frame'', ''Doodad'', ''Window'', ''Button''}"
    and "prefix kw seg \<or> prefix (CHR ''_'' # kw) seg"
  shows "extract_category f = Inr kw \<and>
         extract_category ''FrameDoodadThing.svg'' = Inr ''Frame''"
proof
  have seg: "extract_category seg = Inr kw"
    by (simp add: extract_category_plain[OF assms(2)] kw_unique[OF assms(4,5)])
  show "extract_category f = Inr kw"
  proof (cases "dir = []")
    case True
    with seg assms(1) show ?thesis by simp
  next
    case False
    with assms(3) have "butlast dir @ [CHR ''/''] = dir"
      using append_butlast_last_id[of dir] by simp
    then have "f = butlast dir @ CHR ''/'' # seg"
      using assms(1) by (metis append.assoc append_Cons append_Nil)
    with seg extract_category_trim[OF assms(2), of "butlast dir"] show ?thesis by simp
  qed
  show "extract_category ''FrameDoodadThing.svg'' = Inr ''Frame''"
    by code_simp
qed

text \<open>
  The hypotheses of C5 hold at \<open>"sprites/_ButtonFrameStandard08.svg"\<close>.
\<close>

theorem extract_category_prefix_keyword_witness:
  "''sprites/_ButtonFrameStandard08.svg'' = ''sprites/'' @ ''_ButtonFrameStandard08.svg'' \<and>
   CHR ''/'' \<notin> set ''_ButtonFrameStandard08.svg'' \<and>
   last ''sprites/'' = CHR ''/'' \<and>
   prefix (CHR ''_'' # ''Button'') ''_ButtonFrameStandard08.svg'' \<and>
   extract_category ''sprites/_ButtonFrameStandard08.svg'' = Inr ''Button'' \<and>
   extract_category ''FrameDoodadThing.svg'' = Inr ''Frame''"
proof -
  have h1: "''sprites/_ButtonFrameStandard08.svg'' = ''sprites/'' @ ''_ButtonFrameStandard08.svg''"
    by simp
  have h2: "CHR ''/'' \<notin> set ''_ButtonFrameStandard08.svg''" by simp
  have h3: "''sprites/'' = [] \<or> last ''sprites/'' = CHR ''/''" by simp
  have h4: "''Button'' \<in> {''IconArt'', ''Frame'', ''Doodad'', ''Window'', ''Button''}" by simp
  have h5: "prefix ''Button'' ''_ButtonFrameStandard08.svg'' \<or>
            prefix (CHR ''_'' # ''Button'') ''_ButtonFrameStandard08.svg''" by simp
  from extract_category_prefix_keyword[OF h1 h2 h3 h4 h5] show ?thesis by simp
qed

text \<open>
  C5 as stated fails for a filename with a slash: \<open>"Frame/x.svg"\<close> begins with the
  keyword \<open>Frame\<close>, but only its last segment \<open>x.svg\<close> is tested, and the category
  is \<open>"x"\<close>.
\<close>

theorem extract_category_prefix_keyword_counterexample:
  "prefix ''Frame'' ''Frame/x.svg'' \<and> extract_category ''Frame/x.svg'' = Inr ''x''"
  by code_simp

section \<open>Properties of extract_proper_name\<close>

lemma re_search_a_found:
  assumes nl: "10 \<notin> set s" and f: "find_sub (codepoints ''a_'') s = Some i"
    and len: "i + 2 < length s"
  shows "re_search re_a_at s = Some (drop (i + 2) s)"
proof (rule re_search_leftmost[of i])
  from f have i: "i \<le> length s" and p: "prefix (codepoints ''a_'') (drop i s)"
    and before: "\<forall>j<i. \<not> prefix (codepoints ''a_'') (drop j s)"
    by (simp_all add: find_sub_Some_iff)
  show "i \<le> length s" by (rule i)
  have "10 \<notin> set (drop i s)" using nl by (auto dest: in_set_dropD)
  with p len show "re_a_at (drop i s) = Some (drop (i + 2) s)"
    by (simp add: re_a_at_plain add.commute)
  show "\<forall>j<i. re_a_at (drop j s) = None"
    using before by (simp add: re_a_at_def)
qed

lemma re_search_a_none:
  assumes nl: "10 \<notin> set s"
    and no: "\<not> (\<exists>i. find_sub (codepoints ''a_'') s = Some i \<and> i + 2 < length s)"
  shows "re_search re_a_at s = None"
proof (rule re_search_none, intro allI impI)
  fix j assume j: "j \<le> length s"
  have nlj: "10 \<notin> set (drop j s)" using nl by (auto dest: in_set_dropD)
  show "re_a_at (drop j s) = None"
  proof (rule ccontr)
    assume "re_a_at (drop j s) \<noteq> None"
    then have p: "prefix (codepoints ''a_'') (drop j s)" and l: "2 < length (drop j s)"
      by (auto simp: re_a_at_plain[OF nlj] split: if_splits)
    from p j have "find_sub (codepoints ''a_'') s \<noteq> None" by (auto simp: find_sub_None_iff)
    then obtain i where i: "find_sub (codepoints ''a_'') s = Some i" by blast
    have "i \<le> j"
    proof (rule ccontr)
      assume "\<not> i \<le> j"
      then have "j < i" by simp
      with i p show False by (simp add: find_sub_Some_iff)
    qed
    with l have "i + 2 < length s" by simp
    with i no show False by blast
  qed
qed

lemma re_search_sprite_found:
  assumes nl: "10 \<notin> set s"
    and s: "s = pre @ codepoints ''DefineSprite_'' @ ds @ codepoints ''_'' @ rest"
    and ds: "ds \<noteq> []" "list_all is_digit ds" and rest: "rest \<noteq> []"
    and first: "\<forall>pre' ds' rest'.
        s = pre' @ codepoints ''DefineSprite_'' @ ds' @ codepoints ''_'' @ rest' \<and>
        ds' \<noteq> [] \<and> list_all is_digit ds' \<and> rest' \<noteq> [] \<longrightarrow> length pre \<le> length pre'"
  shows "re_search re_sprite_at s = Some rest"
proof (rule re_search_leftmost[of "length pre"])
  show "length pre \<le> length s" using s by simp
  have "10 \<notin> set rest" using nl s by simp
  from re_sprite_at_form[OF this ds rest]
  show "re_sprite_at (drop (length pre) s) = Some rest" unfolding s by simp
  show "\<forall>j<length pre. re_sprite_at (drop j s) = None"
  proof (intro allI impI, rule ccontr)
    fix j assume j: "j < length pre" and "re_sprite_at (drop j s) \<noteq> None"
    then obtain g where m: "re_sprite_at (drop j s) = Some g" by blast
    have "10 \<notin> set (drop j s)" using nl by (auto dest: in_set_dropD)
    from re_sprite_at_Some[OF m this] obtain ds' where
      d: "drop j s = codepoints ''DefineSprite_'' @ ds' @ codepoints ''_'' @ g"
      and "ds' \<noteq> []" "list_all is_digit ds'" "g \<noteq> []"
      by blast
    have "s = take j s @ drop j s" by simp
    then have "s = take j s @ codepoints ''DefineSprite_'' @ ds' @ codepoints ''_'' @ g"
      unfolding d .
    with first \<open>ds' \<noteq> []\<close> \<open>list_all is_digit ds'\<close> \<open>g \<noteq> []\<close>
    have "length pre \<le> length (take j s)" by blast
    moreover have "length (take j s) \<le> j" by simp
    ultimately show False using j by simp
  qed
qed

lemma re_search_sprite_none:
  assumes nl: "10 \<notin> set s"
    and no: "\<not> (\<exists>pre ds rest.
                 s = pre @ codepoints ''DefineSprite_'' @ ds @ codepoints ''_'' @ rest \<and>
                 ds \<noteq> [] \<and> list_all is_digit ds \<and> rest \<noteq> [])"
  shows "re_search re_sprite_at s = None"
proof (rule ccontr)
  assume "re_search re_sprite_at s \<noteq> None"
  then obtain g where "re_search re_sprite_at s = Some g" by blast
  from re_search_Some[OF this] obtain i where i: "i \<le> length s"
    and m: "re_sprite_at (drop i s) = Some g" by blast
  have "10 \<notin> set (drop i s)" using nl by (auto dest: in_set_dropD)
  from re_sprite_at_Some[OF m this] obtain ds where
    d: "drop i s = codepoints ''DefineSprite_'' @ ds @ codepoints ''_'' @ g"
    and "ds \<noteq> []" "list_all is_digit ds" "g \<noteq> []"
    by blast
  have "s = take i s @ drop i s" by simp
  then have "s = take i s @ codepoints ''DefineSprite_'' @ ds @ codepoints ''_'' @ g"
    unfolding d .
  with \<open>ds \<noteq> []\<close> \<open>list_all is_digit ds\<close> \<open>g \<noteq> []\<close> no show False by blast
qed

lemma no_sprite_part:
  assumes "find_sub (codepoints ''DefineSprite_'') s = None"
  shows "\<not> (\<exists>pre ds rest.
            s = pre @ codepoints ''DefineSprite_'' @ ds @ codepoints ''_'' @ rest \<and>
            ds \<noteq> [] \<and> list_all is_digit ds \<and> rest \<noteq> [])"
proof
  assume "\<exists>pre ds rest.
            s = pre @ codepoints ''DefineSprite_'' @ ds @ codepoints ''_'' @ rest \<and>
            ds \<noteq> [] \<and> list_all is_digit ds \<and> rest \<noteq> []"
  then obtain pre t where e: "s = pre @ codepoints ''DefineSprite_'' @ t" by blast
  then have "drop (length pre) s = codepoints ''DefineSprite_'' @ t" by simp
  then have "prefix (codepoints ''DefineSprite_'') (drop (length pre) s)" by simp
  moreover have "length pre \<le> length s" unfolding e by simp
  ultimately show False using assms unfolding find_sub_None_iff by blast
qed

text \<open>
  C6, as amended. For a folder name without a newline character (the code point 10):
  \<^item> when the leftmost \<open>a_\<close> stands at index \<open>i\<close> and at least one character
    follows it, the proper name is everything after it;
  \<^item> otherwise, when the name has parts of the form \<open>DefineSprite_<digits>_<rest>\<close>,
    with one or more decimal digits and a non-empty rest, the proper name is the rest
    of the leftmost of them;
  \<^item> otherwise the name comes back unchanged.
  The three examples of the specification are instances.
\<close>

theorem extract_proper_name_rules:
  assumes "10 \<notin> set s"
  shows "(\<forall>i. find_sub (codepoints ''a_'') s = Some i \<and> i + 2 < length s \<longrightarrow>
            extract_proper_name s = drop (i + 2) s) \<and>
         (\<forall>pre ds rest.
            \<not> (\<exists>i. find_sub (codepoints ''a_'') s = Some i \<and> i + 2 < length s) \<and>
            s = pre @ codepoints ''DefineSprite_'' @ ds @ codepoints ''_'' @ rest \<and>
            ds \<noteq> [] \<and> list_all is_digit ds \<and> rest \<noteq> [] \<and>
            (\<forall>pre' ds' rest'.
               s = pre' @ codepoints ''DefineSprite_'' @ ds' @ codepoints ''_'' @ rest' \<and>
               ds' \<noteq> [] \<and> list_all is_digit ds' \<and> rest' \<noteq> [] \<longrightarrow>
               length pre \<le> length pre') \<longrightarrow>
            extract_proper_name s = rest) \<and>
         (\<not> (\<exists>i. find_sub (codepoints ''a_'') s = Some i \<and> i + 2 < length s) \<and>
          \<not> (\<exists>pre ds rest.
                s = pre @ codepoints ''DefineSprite_'' @ ds @ codepoints ''_'' @ rest \<and>
                ds \<noteq> [] \<and> list_all is_digit ds \<and> rest \<noteq> []) \<longrightarrow>
            extract_proper_name s = s) \<and>
         extract_proper_name (codepoints ''DefineSprite_2_a_WaistSide_ThunderGolem'') =
           codepoints ''WaistSide_ThunderGolem'' \<and>
         extract_proper_name (codepoints ''DefineSprite_1234_Torso_EscapedGladiator'') =
           codepoints ''Torso_EscapedGladiator'' \<and>
         extract_proper_name (codepoints ''NoPatternHere'') = codepoints ''NoPatternHere''"
proof (intro conjI allI impI; (elim conjE)?)
  fix i assume "find_sub (codepoints ''a_'') s = Some i" and "i + 2 < length s"
  then show "extract_proper_name s = drop (i + 2) s"
    using re_search_a_found[OF assms] by (simp add: extract_proper_name_def)
next
  fix pre ds rest
  assume na: "\<not> (\<exists>i. find_sub (codepoints ''a_'') s = Some i \<and> i + 2 < length s)"
    and sd: "s = pre @ codepoints ''DefineSprite_'' @ ds @ codepoints ''_'' @ rest"
    and ds: "ds \<noteq> []" "list_all is_digit ds" and rest: "rest \<noteq> []"
    and first: "\<forall>pre' ds' rest'.
               s = pre' @ codepoints ''DefineSprite_'' @ ds' @ codepoints ''_'' @ rest' \<and>
               ds' \<noteq> [] \<and> list_all is_digit ds' \<and> rest' \<noteq> [] \<longrightarrow>
               length pre \<le> length pre'"
  have "re_search re_a_at s = None" by (rule re_search_a_none[OF assms na])
  moreover have "re_search re_sprite_at s = Some rest"
    by (rule re_search_sprite_found[OF assms sd ds rest first])
  ultimately show "extract_proper_name s = rest" by (simp add: extract_proper_name_def)
next
  assume na: "\<not> (\<exists>i. find_sub (codepoints ''a_'') s = Some i \<and> i + 2 < length s)"
    and ns: "\<not> (\<exists>pre ds rest.
                s = pre @ codepoints ''DefineSprite_'' @ ds @ codepoints ''_'' @ rest \<and>
                ds \<noteq> [] \<and> list_all is_digit ds \<and> rest \<noteq> [])"
  have "re_search re_a_at s = None" by (rule re_search_a_none[OF assms na])
  moreover have "re_search re_sprite_at s = None" by (rule re_search_sprite_none[OF assms ns])
  ultimately show "extract_proper_name s = s" by (simp add: extract_proper_name_def)
next
  show "extract_proper_name (codepoints ''DefineSprite_2_a_WaistSide_ThunderGolem'') =
           codepoints ''WaistSide_ThunderGolem''"
    by code_simp
  show "extract_proper_name (codepoints ''DefineSprite_1234_Torso_EscapedGladiator'') =
           codepoints ''Torso_EscapedGladiator''"
    by code_simp
  show "extract_proper_name (codepoints ''NoPatternHere'') = codepoints ''NoPatternHere''"
    by code_simp
qed

text \<open>
  C6 as stated fails for a name with a newline, which the dot of \<open>(.+)\<close> does not
  match: in the name made of \<open>a_\<close>, a newline and \<open>b\<close> the literal \<open>a_\<close> at index 0 is
  followed by two characters, yet no pattern matches and the name comes back unchanged.
\<close>

theorem extract_proper_name_rules_counterexample:
  "find_sub (codepoints ''a_'') (codepoints ''a_'' @ [10] @ codepoints ''b'') = Some 0 \<and>
   0 + 2 < length (codepoints ''a_'' @ [10] @ codepoints ''b'') \<and>
   extract_proper_name (codepoints ''a_'' @ [10] @ codepoints ''b'') =
     codepoints ''a_'' @ [10] @ codepoints ''b'' \<and>
   drop (0 + 2) (codepoints ''a_'' @ [10] @ codepoints ''b'') = [10] @ codepoints ''b''"
  by code_simp

lemma sprite_part_leftmost:
  assumes nl: "10 \<notin> set s" and none: "list_all (\<lambda>j. re_sprite_at (drop j s) = None) [0..<n]"
  shows "\<forall>pre' ds' rest'.
           s = pre' @ codepoints ''DefineSprite_'' @ ds' @ codepoints ''_'' @ rest' \<and>
           ds' \<noteq> [] \<and> list_all is_digit ds' \<and> rest' \<noteq> [] \<longrightarrow> n \<le> length pre'"
proof (intro allI impI, elim conjE, rule ccontr)
  fix pre' ds' rest'
  assume s: "s = pre' @ codepoints ''DefineSprite_'' @ ds' @ codepoints ''_'' @ rest'"
    and ds: "ds' \<noteq> []" "list_all is_digit ds'" and rest: "rest' \<noteq> []"
    and "\<not> n \<le> length pre'"
  then have "length pre' < n" by simp
  with none have "re_sprite_at (drop (length pre') s) = None" by (simp add: list_all_iff)
  moreover have "10 \<notin> set rest'" using nl s by simp
  from re_sprite_at_form[OF this ds rest]
  have "re_sprite_at (drop (length pre') s) = Some rest'" unfolding s by simp
  ultimately show False by simp
qed

text \<open>
  The hypotheses of the cases of C6 hold at the three examples, at a name where the
  leftmost \<open>DefineSprite_\<close> is not followed by a digit and a later one is, and at a name
  with the digit three of the Arabic script (the code point 0x663) for a number.
\<close>

theorem extract_proper_name_rules_witness:
  "10 \<notin> set (codepoints ''DefineSprite_2_a_WaistSide_ThunderGolem'') \<and>
   find_sub (codepoints ''a_'') (codepoints ''DefineSprite_2_a_WaistSide_ThunderGolem'') = Some 15 \<and>
   15 + 2 < length (codepoints ''DefineSprite_2_a_WaistSide_ThunderGolem'') \<and>
   extract_proper_name (codepoints ''DefineSprite_2_a_WaistSide_ThunderGolem'') =
     drop (15 + 2) (codepoints ''DefineSprite_2_a_WaistSide_ThunderGolem'') \<and>
   10 \<notin> set (codepoints ''DefineSprite_1234_Torso_EscapedGladiator'') \<and>
   find_sub (codepoints ''a_'') (codepoints ''DefineSprite_1234_Torso_EscapedGladiator'') = None \<and>
   codepoints ''DefineSprite_1234_Torso_EscapedGladiator'' =
     [] @ codepoints ''DefineSprite_'' @ codepoints ''1234'' @ codepoints ''_'' @
       codepoints ''Torso_EscapedGladiator'' \<and>
   list_all is_digit (codepoints ''1234'') \<and>
   extract_proper_name (codepoints ''DefineSprite_1234_Torso_EscapedGladiator'') =
     codepoints ''Torso_EscapedGladiator'' \<and>
   10 \<notin> set (codepoints ''NoPatternHere'') \<and>
   find_sub (codepoints ''a_'') (codepoints ''NoPatternHere'') = None \<and>
   find_sub (codepoints ''DefineSprite_'') (codepoints ''NoPatternHere'') = None \<and>
   extract_proper_name (codepoints ''NoPatternHere'') = codepoints ''NoPatternHere'' \<and>
   10 \<notin> set (codepoints ''DefineSprite_xDefineSprite_1_y'') \<and>
   find_sub (codepoints ''a_'') (codepoints ''DefineSprite_xDefineSprite_1_y'') = None \<and>
   codepoints ''DefineSprite_xDefineSprite_1_y'' =
     codepoints ''DefineSprite_x'' @ codepoints ''DefineSprite_'' @ codepoints ''1'' @
       codepoints ''_'' @ codepoints ''y'' \<and>
   list_all (\<lambda>j. re_sprite_at (drop j (codepoints ''DefineSprite_xDefineSprite_1_y'')) = None)
     [0..<length (codepoints ''DefineSprite_x'')] \<and>
   extract_proper_name (codepoints ''DefineSprite_xDefineSprite_1_y'') = codepoints ''y'' \<and>
   10 \<notin> set (codepoints ''DefineSprite_'' @ [0x663] @ codepoints ''_x'') \<and>
   find_sub (codepoints ''a_'') (codepoints ''DefineSprite_'' @ [0x663] @ codepoints ''_x'') = None \<and>
   is_digit 0x663 \<and>
   extract_proper_name (codepoints ''DefineSprite_'' @ [0x663] @ codepoints ''_x'') =
     codepoints ''x''"
proof -
  let ?s1 = "codepoints ''DefineSprite_2_a_WaistSide_ThunderGolem''"
  let ?s2 = "codepoints ''DefineSprite_1234_Torso_EscapedGladiator''"
  let ?s3 = "codepoints ''NoPatternHere''"
  let ?s4 = "codepoints ''DefineSprite_xDefineSprite_1_y''"
  let ?s5 = "codepoints ''DefineSprite_'' @ [0x663] @ codepoints ''_x''"
  have n1: "10 \<notin> set ?s1" by code_simp
  have n2: "10 \<notin> set ?s2" by code_simp
  have n3: "10 \<notin> set ?s3" by code_simp
  have n4: "10 \<notin> set ?s4" by code_simp
  have n5: "10 \<notin> set ?s5" by code_simp
  have f1: "find_sub (codepoints ''a_'') ?s1 = Some 15" by code_simp
  have l1: "15 + 2 < length ?s1" by simp
  have f2: "find_sub (codepoints ''a_'') ?s2 = None" by code_simp
  have f3: "find_sub (codepoints ''a_'') ?s3 = None" by code_simp
  have f4: "find_sub (codepoints ''a_'') ?s4 = None" by code_simp
  have f5: "find_sub (codepoints ''a_'') ?s5 = None" by code_simp
  have d2: "?s2 = [] @ codepoints ''DefineSprite_'' @ codepoints ''1234'' @ codepoints ''_'' @
       codepoints ''Torso_EscapedGladiator''" by code_simp
  have dg2: "list_all is_digit (codepoints ''1234'')" by code_simp
  have g3: "find_sub (codepoints ''DefineSprite_'') ?s3 = None" by code_simp
  have d4: "?s4 = codepoints ''DefineSprite_x'' @ codepoints ''DefineSprite_'' @ codepoints ''1'' @
       codepoints ''_'' @ codepoints ''y''" by code_simp
  have dg4: "list_all is_digit (codepoints ''1'')" by code_simp
  have e4: "list_all (\<lambda>j. re_sprite_at (drop j ?s4) = None) [0..<length (codepoints ''DefineSprite_x'')]"
    by code_simp
  have d5: "?s5 = [] @ codepoints ''DefineSprite_'' @ [0x663] @ codepoints ''_'' @ codepoints ''x''"
    by code_simp
  have dg5: "is_digit 0x663" by code_simp
  have ne: "codepoints ''1234'' \<noteq> []" "codepoints ''Torso_EscapedGladiator'' \<noteq> []"
    "codepoints ''1'' \<noteq> []" "codepoints ''y'' \<noteq> []" "codepoints ''x'' \<noteq> []"
    by (simp_all add: codepoints_def)
  have first0: "\<forall>pre' ds' rest'. P pre' ds' rest' \<longrightarrow> length ([]::int list) \<le> length pre'"
    for P :: "int list \<Rightarrow> int list \<Rightarrow> int list \<Rightarrow> bool" by simp
  have na2: "\<not> (\<exists>i. find_sub (codepoints ''a_'') ?s2 = Some i \<and> i + 2 < length ?s2)"
    unfolding f2 by simp
  have na3: "\<not> (\<exists>i. find_sub (codepoints ''a_'') ?s3 = Some i \<and> i + 2 < length ?s3)"
    unfolding f3 by simp
  have na4: "\<not> (\<exists>i. find_sub (codepoints ''a_'') ?s4 = Some i \<and> i + 2 < length ?s4)"
    unfolding f4 by simp
  have na5: "\<not> (\<exists>i. find_sub (codepoints ''a_'') ?s5 = Some i \<and> i + 2 < length ?s5)"
    unfolding f5 by simp
  have r1: "extract_proper_name ?s1 = drop (15 + 2) ?s1"
    by (rule extract_proper_name_rules[OF n1, THEN conjunct1, rule_format, OF conjI[OF f1 l1]])
  have r2: "extract_proper_name ?s2 = codepoints ''Torso_EscapedGladiator''"
    by (rule extract_proper_name_rules[OF n2, THEN conjunct2, THEN conjunct1, rule_format])
       (intro conjI, rule na2, rule d2, rule ne, rule dg2, rule ne, rule first0)
  have r3: "extract_proper_name ?s3 = ?s3"
    by (rule extract_proper_name_rules[OF n3, THEN conjunct2, THEN conjunct2, THEN conjunct1,
          rule_format, OF conjI[OF na3 no_sprite_part[OF g3]]])
  have r4: "extract_proper_name ?s4 = codepoints ''y''"
    by (rule extract_proper_name_rules[OF n4, THEN conjunct2, THEN conjunct1, rule_format])
       (intro conjI, rule na4, rule d4, rule ne, rule dg4, rule ne,
        rule sprite_part_leftmost[OF n4 e4])
  have r5: "extract_proper_name ?s5 = codepoints ''x''"
    by (rule extract_proper_name_rules[OF n5, THEN conjunct2, THEN conjunct1, rule_format])
       (intro conjI, rule na5, rule d5, simp, simp add: dg5, rule ne, rule first0)
  show ?thesis
    by (intro conjI)
       (rule n1 f1 l1 r1 n2 f2 d2 dg2 r2 n3 f3 g3 r3 n4 f4 d4 e4 r4 n5 f5 dg5 r5)+
qed

section \<open>Lemmas on the file system\<close>

lemma lookup_append_new:
  "lookup fs q = None \<Longrightarrow> lookup (fs @ [(q, v)]) p = (if p = q then Some v else lookup fs p)"
  by (auto simp: lookup_def map_add_def split: option.splits if_splits)

lemma lookup_update:
  "q \<noteq> [] \<Longrightarrow> lookup (AList.update q v fs) p = (if p = q then Some v else lookup fs p)"
  by (simp add: lookup_def update_conv')

lemma lookup_delete:
  "q \<noteq> [] \<Longrightarrow> lookup (AList.delete q fs) p = (if p = q then None else lookup fs p)"
  by (simp add: lookup_def delete_conv')

lemma lookup_Some_not_root: "lookup fs p = Some (File c) \<Longrightarrow> p \<noteq> []"
  by (auto simp: lookup_def)

lemma mkdir_keeps:
  "mkdir_exist_ok q fs = (r, fs') \<Longrightarrow> lookup fs p = Some v \<Longrightarrow> lookup fs' p = Some v"
  by (auto simp: mkdir_exist_ok_def lookup_append_new split: option.splits node.splits)

lemma lookup_None_not_root: "lookup fs p = None \<Longrightarrow> p \<noteq> []"
  by (auto simp: lookup_def)

lemma copy2_cases:
  assumes "copy2 src dst0 fs = (r, fs')"
  shows "fs' = fs \<or>
         (\<exists>dst c. r = Inr () \<and> lookup fs src = Some (File c) \<and> dst \<noteq> src \<and>
            (dst = dst0 \<or> dst = joinpath dst0 (last src)) \<and> lookup fs dst \<noteq> Some Dir \<and>
            (\<forall>p. lookup fs' p = (if p = dst then Some (File c) else lookup fs p)))"
proof -
  define dst where "dst = (if is_dir fs dst0 then joinpath dst0 (last src) else dst0)"
  have d: "dst = dst0 \<or> dst = joinpath dst0 (last src)" by (simp add: dst_def)
  show ?thesis
  proof (cases "lookup fs src")
    case None
    with assms show ?thesis by (auto simp: copy2_def Let_def split: if_splits)
  next
    case (Some v)
    show ?thesis
    proof (cases v)
      case Dir
      with Some assms show ?thesis by (auto simp: copy2_def Let_def split: if_splits)
    next
      case (File c)
      show ?thesis
      proof (cases "dst = src")
        case True
        with Some assms show ?thesis by (auto simp: copy2_def Let_def dst_def split: if_splits)
      next
        case False
        note ne = False
        show ?thesis
        proof (cases "lookup fs dst")
          case None
          note nd = None
          show ?thesis
          proof (cases "lookup fs (butlast dst) = Some Dir")
            case False
            with Some File ne nd assms show ?thesis
              by (auto simp: copy2_def Let_def dst_def split: option.splits node.splits)
          next
            case True
            with Some File ne nd assms have "r = Inr ()" and fs': "fs' = fs @ [(dst, File c)]"
              by (auto simp: copy2_def Let_def dst_def split: if_splits)
            have "\<forall>p. lookup fs' p = (if p = dst then Some (File c) else lookup fs p)"
              unfolding fs' by (simp add: lookup_append_new[OF nd])
            with \<open>r = Inr ()\<close> Some File ne d nd show ?thesis
              by (intro disjI2 exI[of _ dst] exI[of _ c]) simp
          qed
        next
          case (Some w)
          note sw = Some
          show ?thesis
          proof (cases w)
            case Dir
            with sw \<open>lookup fs src = Some v\<close> File ne assms show ?thesis
              by (auto simp: copy2_def Let_def dst_def split: if_splits)
          next
            case (File c')
            with sw have nr: "dst \<noteq> []" by (auto dest: lookup_Some_not_root)
            from sw File \<open>lookup fs src = Some v\<close> \<open>v = File c\<close> ne assms
            have "r = Inr ()" and fs': "fs' = AList.update dst (File c) fs"
              by (auto simp: copy2_def Let_def dst_def split: if_splits)
            have "\<forall>p. lookup fs' p = (if p = dst then Some (File c) else lookup fs p)"
              unfolding fs' by (simp add: lookup_update[OF nr])
            with \<open>r = Inr ()\<close> \<open>lookup fs src = Some v\<close> \<open>v = File c\<close> ne d sw File
            show ?thesis
              by (intro disjI2 exI[of _ dst] exI[of _ c]) simp
          qed
        qed
      qed
    qed
  qed
qed

lemma copy2_keeps_other:
  "copy2 src dst0 fs = (r, fs') \<Longrightarrow> lookup fs p = Some v \<Longrightarrow>
   p \<noteq> dst0 \<Longrightarrow> p \<noteq> joinpath dst0 (last src) \<Longrightarrow> lookup fs' p = Some v"
  using copy2_cases[of src dst0 fs r fs'] by auto

lemma copy2_keeps_src:
  "copy2 src dst0 fs = (r, fs') \<Longrightarrow> lookup fs src = Some v \<Longrightarrow> lookup fs' src = Some v"
  using copy2_cases[of src dst0 fs r fs'] by auto

lemma copy2_keeps_kind:
  "copy2 src dst0 fs = (r, fs') \<Longrightarrow> lookup fs p = Some (File c) \<Longrightarrow>
   \<exists>c'. lookup fs' p = Some (File c')"
  using copy2_cases[of src dst0 fs r fs'] by auto

lemma copy2_keeps_dir:
  "copy2 src dst0 fs = (r, fs') \<Longrightarrow> lookup fs p = Some Dir \<Longrightarrow> lookup fs' p = Some Dir"
  using copy2_cases[of src dst0 fs r fs'] by auto

lemma unlink_lookup:
  "unlink q fs = (Inr u, fs') \<Longrightarrow> lookup fs' p = (if p = q then None else lookup fs p)"
  by (auto simp: unlink_def lookup_delete dest: lookup_Some_not_root
      split: option.splits node.splits)

lemma unlink_error: "unlink q fs = (Inl e, fs') \<Longrightarrow> fs' = fs"
  by (auto simp: unlink_def split: option.splits node.splits)

section \<open>Lemmas on the loops of organize_files\<close>

lemma copy_files_dry: "copy_files True category_dir fps fs = (Inr (), fs)"
  by (induction fps) (simp_all add: Let_def)

lemma move_categories_dry: "move_categories True output_dir cats fs = (Inr (), fs)"
  by (induction cats) (auto simp: Let_def copy_files_dry)


lemma copy_files_Cons:
  "copy_files dry cdir (fp # fps) fs =
     (if dry \<or> fp = joinpath cdir (last fp) then copy_files dry cdir fps fs
      else (case copy2 fp (joinpath cdir (last fp)) fs of
              (Inl e, fs') \<Rightarrow> (Inl e, fs')
            | (Inr u, fs') \<Rightarrow> copy_files dry cdir fps fs'))"
  by (simp add: Let_def)

lemma copy_files_skip:
  assumes "dry \<or> fp = joinpath cdir (last fp)"
  shows "copy_files dry cdir (fp # fps) fs = copy_files dry cdir fps fs"
  by (subst copy_files_Cons) (rule if_P[OF assms])

lemma copy_files_step:
  assumes "\<not> (dry \<or> fp = joinpath cdir (last fp))"
    and "copy2 fp (joinpath cdir (last fp)) fs = (r1, fs1)"
  shows "copy_files dry cdir (fp # fps) fs =
           (case r1 of Inl e \<Rightarrow> (Inl e, fs1) | Inr u \<Rightarrow> copy_files dry cdir fps fs1)"
  by (subst copy_files_Cons, subst if_not_P[OF assms(1)]) (simp add: assms(2) split: sum.splits)

lemma move_categories_step:
  assumes "(if \<not> dry then mkdir_exist_ok (joinpath out category) fs else (Inr (), fs)) = (r0, fs0)"
    and "copy_files dry (joinpath out category) fps fs0 = (r1, fs1)"
  shows "move_categories dry out ((category, fps) # cats) fs =
           (case r0 of
              Inl e \<Rightarrow> (Inl e, fs0)
            | Inr u \<Rightarrow>
                (case r1 of
                   Inl e \<Rightarrow> (Inl e, fs1)
                 | Inr u \<Rightarrow> move_categories dry out cats fs1))"
  using assms by (cases dry) (auto simp: Let_def split: sum.splits)

declare copy_files.simps(2) [simp del]

declare move_categories.simps(2) [simp del]

lemma child_neq:
  assumes "fp \<noteq> []" and "butlast fp = d" and "d @ [m] \<noteq> fp"
  shows "d @ [m] \<noteq> joinpath cdir (last fp)"
    and "d @ [m] \<noteq> joinpath (joinpath cdir (last fp)) (last fp)"
proof -
  from assms(1,2) have fp: "fp = d @ [last fp]" by (metis append_butlast_last_id)
  show "d @ [m] \<noteq> joinpath cdir (last fp)"
  proof
    assume "d @ [m] = joinpath cdir (last fp)"
    then have "d = cdir \<and> m = last fp" by (simp add: joinpath_def)
    with fp assms(3) show False by simp
  qed
  show "d @ [m] \<noteq> joinpath (joinpath cdir (last fp)) (last fp)"
  proof
    assume "d @ [m] = joinpath (joinpath cdir (last fp)) (last fp)"
    then have "d @ [m] = (cdir @ [last fp]) @ [last fp]" by (simp add: joinpath_def)
    then have "m = last fp" by (metis last_snoc)
    with fp assms(3) show False by simp
  qed
qed

lemma copy_files_keeps_src:
  assumes "copy_files dry cdir fps fs = (r, fs')"
    and "\<forall>fp\<in>set fps. fp \<noteq> [] \<and> butlast fp = d"
    and "lookup fs (d @ [m]) = Some v"
  shows "lookup fs' (d @ [m]) = Some v"
  using assms
proof (induction fps arbitrary: fs)
  case Nil
  then show ?case by simp
next
  case (Cons fp fps)
  let ?dest = "joinpath cdir (last fp)"
  from Cons.prems(2) have tl: "\<forall>fp\<in>set fps. fp \<noteq> [] \<and> butlast fp = d"
    and fp: "fp \<noteq> []" "butlast fp = d" by simp_all
  show ?case
  proof (cases "dry \<or> fp = ?dest")
    case True
    with Cons.prems(1) have "copy_files dry cdir fps fs = (r, fs')"
      by (simp only: copy_files_skip)
    from Cons.IH[OF this tl Cons.prems(3)] show ?thesis .
  next
    case False
    obtain r1 fs1 where c: "copy2 fp ?dest fs = (r1, fs1)" by (cases "copy2 fp ?dest fs")
    have keep: "lookup fs1 (d @ [m]) = Some v"
    proof (cases "d @ [m] = fp")
      case True
      with copy2_keeps_src[OF c] Cons.prems(3) show ?thesis by simp
    next
      case False
      from child_neq[OF fp False, of cdir] copy2_keeps_other[OF c Cons.prems(3)]
      show ?thesis by simp
    qed
    show ?thesis
    proof (cases r1)
      case (Inl e)
      with Cons.prems(1) have "fs' = fs1" by (simp add: copy_files_step[OF False c])
      with keep show ?thesis by simp
    next
      case (Inr u)
      with Cons.prems(1) have "copy_files dry cdir fps fs1 = (r, fs')"
        by (simp add: copy_files_step[OF False c])
      from Cons.IH[OF this tl keep] show ?thesis .
    qed
  qed
qed

lemma copy_files_keeps_kind:
  assumes "copy_files dry cdir fps fs = (r, fs')" and "lookup fs p = Some (File c)"
  shows "\<exists>c'. lookup fs' p = Some (File c')"
  using assms
proof (induction fps arbitrary: fs c)
  case Nil
  then show ?case by simp
next
  case (Cons fp fps)
  let ?dest = "joinpath cdir (last fp)"
  show ?case
  proof (cases "dry \<or> fp = ?dest")
    case True
    with Cons.prems(1) have "copy_files dry cdir fps fs = (r, fs')"
      by (simp only: copy_files_skip)
    from Cons.IH[OF this Cons.prems(2)] show ?thesis .
  next
    case False
    obtain r1 fs1 where c: "copy2 fp ?dest fs = (r1, fs1)" by (cases "copy2 fp ?dest fs")
    from copy2_keeps_kind[OF c Cons.prems(2)] obtain c1 where
      keep: "lookup fs1 p = Some (File c1)" by blast
    show ?thesis
    proof (cases r1)
      case (Inl e)
      with Cons.prems(1) have "fs' = fs1" by (simp add: copy_files_step[OF False c])
      with keep show ?thesis by simp
    next
      case (Inr u)
      with Cons.prems(1) have "copy_files dry cdir fps fs1 = (r, fs')"
        by (simp add: copy_files_step[OF False c])
      from Cons.IH[OF this keep] show ?thesis .
    qed
  qed
qed

lemma move_categories_keeps_src:
  assumes "move_categories dry out cats fs = (r, fs')"
    and "\<forall>fp\<in>set (concat (map snd cats)). fp \<noteq> [] \<and> butlast fp = d"
    and "lookup fs (d @ [m]) = Some v"
  shows "lookup fs' (d @ [m]) = Some v"
  using assms
proof (induction cats arbitrary: fs)
  case Nil
  then show ?case by simp
next
  case (Cons cf cats)
  obtain category fps where cf: "cf = (category, fps)" by (cases cf)
  let ?cdir = "joinpath out category"
  from Cons.prems(2) cf have here: "\<forall>fp\<in>set fps. fp \<noteq> [] \<and> butlast fp = d"
    and tl: "\<forall>fp\<in>set (concat (map snd cats)). fp \<noteq> [] \<and> butlast fp = d" by auto
  obtain r0 fs0 where m: "(if \<not> dry then mkdir_exist_ok ?cdir fs else (Inr (), fs)) = (r0, fs0)"
    by (cases "if \<not> dry then mkdir_exist_ok ?cdir fs else (Inr (), fs)")
  have k0: "lookup fs0 (d @ [m]) = Some v"
    using m Cons.prems(3) mkdir_keeps[of ?cdir fs r0 fs0] by (auto split: if_splits)
  obtain r1 fs1 where c: "copy_files dry ?cdir fps fs0 = (r1, fs1)"
    by (cases "copy_files dry ?cdir fps fs0")
  show ?case
  proof (cases r0)
    case (Inl e)
    with Cons.prems(1) have "fs' = fs0"
      unfolding cf move_categories_step[OF m c] by simp
    with k0 show ?thesis by simp
  next
    case (Inr u)
    note r0 = Inr
    from copy_files_keeps_src[OF c here k0] have k1: "lookup fs1 (d @ [m]) = Some v" .
    show ?thesis
    proof (cases r1)
      case (Inl e)
      with r0 Cons.prems(1) have "fs' = fs1"
        unfolding cf move_categories_step[OF m c] by simp
      with k1 show ?thesis by simp
    next
      case (Inr u')
      with r0 Cons.prems(1) have "move_categories dry out cats fs1 = (r, fs')"
        unfolding cf move_categories_step[OF m c] by simp
      from Cons.IH[OF this tl k1] show ?thesis .
    qed
  qed
qed

lemma move_categories_keeps_kind:
  assumes "move_categories dry out cats fs = (r, fs')" and "lookup fs p = Some (File c)"
  shows "\<exists>c'. lookup fs' p = Some (File c')"
  using assms
proof (induction cats arbitrary: fs c)
  case Nil
  then show ?case by simp
next
  case (Cons cf cats)
  obtain category fps where cf: "cf = (category, fps)" by (cases cf)
  let ?cdir = "joinpath out category"
  obtain r0 fs0 where m: "(if \<not> dry then mkdir_exist_ok ?cdir fs else (Inr (), fs)) = (r0, fs0)"
    by (cases "if \<not> dry then mkdir_exist_ok ?cdir fs else (Inr (), fs)")
  have k0: "lookup fs0 p = Some (File c)"
    using m Cons.prems(2) mkdir_keeps[of ?cdir fs r0 fs0] by (auto split: if_splits)
  obtain r1 fs1 where c: "copy_files dry ?cdir fps fs0 = (r1, fs1)"
    by (cases "copy_files dry ?cdir fps fs0")
  show ?case
  proof (cases r0)
    case (Inl e)
    with Cons.prems(1) have "fs' = fs0"
      unfolding cf move_categories_step[OF m c] by simp
    with k0 show ?thesis by simp
  next
    case (Inr u)
    note r0 = Inr
    from copy_files_keeps_kind[OF c k0] obtain c1 where k1: "lookup fs1 p = Some (File c1)"
      by blast
    show ?thesis
    proof (cases r1)
      case (Inl e)
      with r0 Cons.prems(1) have "fs' = fs1"
        unfolding cf move_categories_step[OF m c] by simp
      with k1 show ?thesis by simp
    next
      case (Inr u')
      with r0 Cons.prems(1) have "move_categories dry out cats fs1 = (r, fs')"
        unfolding cf move_categories_step[OF m c] by simp
      from Cons.IH[OF this k1] show ?thesis .
    qed
  qed
qed

lemma group_add_mset:
  "mset (concat (map snd (group_add k v cats))) = add_mset v (mset (concat (map snd cats)))"
  by (induction cats) auto

lemma group_files_mset:
  "group_files files cats = Inr cats' \<Longrightarrow>
   mset (concat (map snd cats')) = mset files + mset (concat (map snd cats))"
proof (induction files arbitrary: cats)
  case Nil
  then show ?case by simp
next
  case (Cons f files)
  show ?case
  proof (cases "extract_category (last f)")
    case (Inl e)
    with Cons.prems show ?thesis by simp
  next
    case (Inr c)
    with Cons.prems have "group_files files (group_add c f cats) = Inr cats'" by simp
    from Cons.IH[OF this] show ?thesis by (simp add: group_add_mset)
  qed
qed

lemma group_files_paths:
  assumes "group_files files [] = Inr cats"
  shows "set (concat (map snd cats)) = set files"
proof -
  from group_files_mset[OF assms] have "mset (concat (map snd cats)) = mset files" by simp
  then show ?thesis by (rule mset_eq_setD)
qed

lemma select_files_child:
  "fp \<in> set (select_files d types fs names) \<Longrightarrow> fp \<noteq> [] \<and> butlast fp = d"
  by (auto simp: select_files_def joinpath_def)


lemma prepare_output_keeps:
  "prepare_output d out fs = (r, fs') \<Longrightarrow> lookup fs p = Some v \<Longrightarrow> lookup fs' p = Some v"
  by (cases out; cases "mkdir_exist_ok (the out) fs")
    (auto simp: prepare_output_def dest: mkdir_keeps split: sum.splits)

lemma copy_stage_keeps_src:
  assumes "copy_stage d out types dry fs = (r, fs')" and "lookup fs (d @ [m]) = Some v"
  shows "lookup fs' (d @ [m]) = Some v"
proof -
  obtain r1 fs1 where p: "prepare_output d out fs = (r1, fs1)"
    by (cases "prepare_output d out fs")
  from prepare_output_keeps[OF p assms(2)] have k1: "lookup fs1 (d @ [m]) = Some v" .
  show ?thesis
  proof (cases r1)
    case (Inl e)
    with p assms(1) k1 show ?thesis by (simp add: copy_stage_def)
  next
    case (Inr output_dir)
    note r1 = Inr
    show ?thesis
    proof (cases "files_to_organize d types fs1")
      case (Inl e)
      with p r1 assms(1) k1 show ?thesis by (simp add: copy_stage_def)
    next
      case (Inr files)
      note files = Inr
      have child: "\<forall>fp\<in>set files. fp \<noteq> [] \<and> butlast fp = d"
        using files select_files_child[of _ d]
        by (auto simp: files_to_organize_def split: sum.splits)
      show ?thesis
      proof (cases "group_files files []")
        case (Inl e)
        with p r1 files assms(1) k1 show ?thesis by (simp add: copy_stage_def)
      next
        case (Inr cats)
        with p r1 files assms(1) have mv: "move_categories dry output_dir cats fs1 = (r, fs')"
          by (simp add: copy_stage_def)
        from child group_files_paths[OF Inr]
        have "\<forall>fp\<in>set (concat (map snd cats)). fp \<noteq> [] \<and> butlast fp = d" by simp
        from move_categories_keeps_src[OF mv this k1] show ?thesis .
      qed
    qed
  qed
qed

lemma copy_stage_keeps_kind:
  assumes "copy_stage d out types dry fs = (r, fs')" and "lookup fs p = Some (File c)"
  shows "\<exists>c'. lookup fs' p = Some (File c')"
proof -
  obtain r1 fs1 where p: "prepare_output d out fs = (r1, fs1)"
    by (cases "prepare_output d out fs")
  from prepare_output_keeps[OF p assms(2)] have k1: "lookup fs1 p = Some (File c)" .
  show ?thesis
  proof (cases r1)
    case (Inl e)
    with p assms(1) k1 show ?thesis by (simp add: copy_stage_def)
  next
    case (Inr output_dir)
    note r1 = Inr
    show ?thesis
    proof (cases "files_to_organize d types fs1")
      case (Inl e)
      with p r1 assms(1) k1 show ?thesis by (simp add: copy_stage_def)
    next
      case (Inr files)
      note files = Inr
      show ?thesis
      proof (cases "group_files files []")
        case (Inl e)
        with p r1 files assms(1) k1 show ?thesis by (simp add: copy_stage_def)
      next
        case (Inr cats)
        with p r1 files assms(1) have mv: "move_categories dry output_dir cats fs1 = (r, fs')"
          by (simp add: copy_stage_def)
        from move_categories_keeps_kind[OF mv k1] show ?thesis .
      qed
    qed
  qed
qed

lemma copy_stage_dry:
  "snd (copy_stage d out types True fs) = snd (prepare_output d out fs)"
  by (auto simp: copy_stage_def move_categories_dry split: prod.splits sum.splits)

lemma is_file_iff: "is_file fs p = (\<exists>c. lookup fs p = Some (File c))"
  by (auto simp: is_file_def split: option.splits node.splits)

lemma listdir_member:
  assumes "lookup fs (d @ [n]) = Some (File c)" and "listdir fs d = Inr names"
  shows "n \<in> set names"
proof -
  from assms(1) have "map_of fs (d @ [n]) = Some (File c)" by (simp add: lookup_def)
  then have "(d @ [n], File c) \<in> set fs" by (rule map_of_SomeD)
  moreover from assms(2) have
    "names = map (last \<circ> fst) (filter (\<lambda>(p, n). p \<noteq> [] \<and> butlast p = d) fs)"
    by (auto simp: listdir_def split: option.splits node.splits)
  ultimately show ?thesis by force
qed

lemma delete_matching_Cons:
  "delete_matching d types (name # names) fs =
     (if is_file fs (joinpath d name) \<and> str_lower (path_suffix name) \<in> set types
      then delete_matching d types names (AList.delete (joinpath d name) fs)
      else delete_matching d types names fs)"
  by (auto simp: Let_def unlink_def is_file_def split: option.splits node.splits)

declare delete_matching.simps(2) [simp del]

lemma delete_matching_ok: "fst (delete_matching d types names fs) = Inr ()"
  by (induction names arbitrary: fs) (simp_all add: delete_matching_Cons)

lemma delete_matching_lookup:
  "delete_matching d types names fs = (r, fs') \<Longrightarrow>
   lookup fs' p = lookup fs p \<or>
   (lookup fs' p = None \<and>
    (\<exists>n c. p = d @ [n] \<and> lookup fs p = Some (File c) \<and> str_lower (path_suffix n) \<in> set types))"
proof (induction names arbitrary: fs)
  case Nil
  then show ?case by simp
next
  case (Cons name names)
  let ?item = "joinpath d name"
  show ?case
  proof (cases "is_file fs ?item \<and> str_lower (path_suffix name) \<in> set types")
    case False
    with Cons.prems have "delete_matching d types names fs = (r, fs')"
      by (simp add: delete_matching_Cons)
    from Cons.IH[OF this] show ?thesis .
  next
    case True
    then obtain c where c: "lookup fs ?item = Some (File c)" by (auto simp: is_file_iff)
    have nr: "?item \<noteq> []" by (simp add: joinpath_def)
    from True Cons.prems have "delete_matching d types names (AList.delete ?item fs) = (r, fs')"
      by (simp add: delete_matching_Cons)
    from Cons.IH[OF this] have ih:
      "lookup fs' p = lookup (AList.delete ?item fs) p \<or>
       (lookup fs' p = None \<and>
        (\<exists>n c. p = d @ [n] \<and> lookup (AList.delete ?item fs) p = Some (File c) \<and>
           str_lower (path_suffix n) \<in> set types))" .
    show ?thesis
    proof (cases "p = ?item")
      case True
      with ih have "lookup fs' p = None" by (auto simp: lookup_delete[OF nr])
      with True c \<open>is_file fs ?item \<and> str_lower (path_suffix name) \<in> set types\<close>
      show ?thesis by (auto simp: joinpath_def)
    next
      case False
      with ih show ?thesis by (simp add: lookup_delete[OF nr])
    qed
  qed
qed

lemma delete_matching_deleted:
  "delete_matching d types names fs = (r, fs') \<Longrightarrow> n \<in> set names \<Longrightarrow>
   lookup fs (d @ [n]) = Some (File c) \<Longrightarrow> str_lower (path_suffix n) \<in> set types \<Longrightarrow>
   lookup fs' (d @ [n]) = None"
proof (induction names arbitrary: fs)
  case Nil
  then show ?case by simp
next
  case (Cons name names)
  let ?item = "joinpath d name"
  have nr: "?item \<noteq> []" by (simp add: joinpath_def)
  show ?case
  proof (cases "name = n")
    case True
    with Cons.prems(3,4) have "is_file fs ?item \<and> str_lower (path_suffix name) \<in> set types"
      by (simp add: is_file_iff joinpath_def)
    with Cons.prems(1) have
      rest: "delete_matching d types names (AList.delete ?item fs) = (r, fs')"
      by (simp add: delete_matching_Cons)
    from delete_matching_lookup[OF rest, of ?item] have "lookup fs' ?item = None"
      by (auto simp: lookup_delete[OF nr])
    with True show ?thesis by (simp add: joinpath_def)
  next
    case False
    with Cons.prems(2) have n: "n \<in> set names" by simp
    from False have ne: "d @ [n] \<noteq> ?item" by (simp add: joinpath_def)
    show ?thesis
    proof (cases "is_file fs ?item \<and> str_lower (path_suffix name) \<in> set types")
      case True
      with Cons.prems(1) have
        rest: "delete_matching d types names (AList.delete ?item fs) = (r, fs')"
        by (simp add: delete_matching_Cons)
      from ne Cons.prems(3) have "lookup (AList.delete ?item fs) (d @ [n]) = Some (File c)"
        by (simp add: lookup_delete[OF nr])
      from Cons.IH[OF rest n this Cons.prems(4)] show ?thesis .
    next
      case False
      with Cons.prems(1) have rest: "delete_matching d types names fs = (r, fs')"
        by (simp add: delete_matching_Cons)
      from Cons.IH[OF rest n Cons.prems(3,4)] show ?thesis .
    qed
  qed
qed

lemma delete_non_foldered_files_lookup:
  assumes "delete_non_foldered_files d (Some types) fs = (r, fs')"
  shows "lookup fs' p = lookup fs p \<or>
         (lookup fs' p = None \<and>
          (\<exists>n c. p = d @ [n] \<and> lookup fs p = Some (File c) \<and>
             str_lower (path_suffix n) \<in> set types))"
proof (cases "listdir fs d")
  case (Inl e)
  with assms show ?thesis by (simp add: delete_non_foldered_files_def)
next
  case (Inr names)
  with assms have "delete_matching d types names fs = (r, fs')"
    by (simp add: delete_non_foldered_files_def default_file_types_def)
  from delete_matching_lookup[OF this] show ?thesis .
qed

lemma delete_non_foldered_files_deleted:
  assumes "delete_non_foldered_files d (Some types) fs = (Inr u, fs')"
    and "lookup fs (d @ [n]) = Some (File c)"
    and "str_lower (path_suffix n) \<in> set types"
  shows "lookup fs' (d @ [n]) = None"
proof (cases "listdir fs d")
  case (Inl e)
  with assms(1) show ?thesis by (simp add: delete_non_foldered_files_def)
next
  case (Inr names)
  with assms(1) have dm: "delete_matching d types names fs = (Inr u, fs')"
    by (simp add: delete_non_foldered_files_def default_file_types_def)
  from delete_matching_deleted[OF dm listdir_member[OF assms(2) Inr] assms(2,3)]
  show ?thesis .
qed

section \<open>Properties of organize_files\<close>

lemma organize_files_unfold:
  "organize_files d out types dry del fs =
     (case copy_stage d out types dry fs of
        (Inl e, fs2) \<Rightarrow> (Inl e, fs2)
      | (Inr u, fs2) \<Rightarrow>
          if del \<and> \<not> dry
          then delete_non_foldered_files d (Some (default_file_types types)) fs2
          else (Inr (), fs2))"
  by (simp add: organize_files_def)

lemma organize_files_no_delete:
  assumes "organize_files d out types dry del fs = (r, fs')" and "\<not> (del \<and> \<not> dry)"
  shows "\<exists>r2. copy_stage d out types dry fs = (r2, fs')"
  using assms by (auto simp: organize_files_def split: prod.splits sum.splits if_splits)

lemma organize_files_delete:
  assumes "organize_files d out types dry del fs = (Inr u, fs')" and "del \<and> \<not> dry"
  shows "\<exists>fs2. copy_stage d out types dry fs = (Inr (), fs2) \<and>
           delete_non_foldered_files d (Some (default_file_types types)) fs2 = (Inr u, fs')"
  using assms by (auto simp: organize_files_def split: prod.splits sum.splits if_splits)

lemma organize_files_keeps_kind:
  assumes "organize_files d out types dry del fs = (r, fs')"
    and "lookup fs p = Some (File c)" and "butlast p \<noteq> d"
  shows "\<exists>c'. lookup fs' p = Some (File c')"
proof -
  obtain r2 fs2 where cs: "copy_stage d out types dry fs = (r2, fs2)"
    by (cases "copy_stage d out types dry fs")
  from copy_stage_keeps_kind[OF cs assms(2)] obtain c2 where
    k2: "lookup fs2 p = Some (File c2)" by blast
  show ?thesis
  proof (cases "fs' = fs2")
    case True
    with k2 show ?thesis by simp
  next
    case False
    with cs assms(1) have
      "delete_non_foldered_files d (Some (default_file_types types)) fs2 = (r, fs')"
      by (auto simp: organize_files_def split: sum.splits if_splits)
    from delete_non_foldered_files_lookup[OF this, of p] assms(3) k2
    show ?thesis by auto
  qed
qed

text \<open>
  C9. Whatever \<open>organize_files\<close> returns, and whatever state it leaves behind:
  \<^item> the copying stage leaves every file at the top level of the source directory in
    place with its content;
  \<^item> unless \<open>delete_originals\<close> is set and \<open>dry_run\<close> is not, the whole call does so
    too;
  \<^item> when \<open>delete_originals\<close> is set, \<open>dry_run\<close> is not and the call returns, a
    top-level file is gone exactly when its lower-cased extension is among the file
    types, whether it was copied or skipped, and is unchanged otherwise;
  \<^item> a file that is not at the top level of the source directory is never deleted.
\<close>

theorem organize_files_source_files:
  assumes "organize_files d out types dry del fs = (r, fs')"
  shows "(\<forall>r2 fs2 n c. copy_stage d out types dry fs = (r2, fs2) \<and>
            lookup fs (d @ [n]) = Some (File c) \<longrightarrow> lookup fs2 (d @ [n]) = Some (File c)) \<and>
         (\<not> (del \<and> \<not> dry) \<longrightarrow>
            (\<forall>n c. lookup fs (d @ [n]) = Some (File c) \<longrightarrow>
               lookup fs' (d @ [n]) = Some (File c))) \<and>
         (del \<and> \<not> dry \<and> r = Inr () \<longrightarrow>
            (\<forall>n c. lookup fs (d @ [n]) = Some (File c) \<longrightarrow>
               lookup fs' (d @ [n]) =
                 (if str_lower (path_suffix n) \<in> set (default_file_types types)
                  then None else Some (File c)))) \<and>
         (\<forall>p c. lookup fs p = Some (File c) \<and> butlast p \<noteq> d \<longrightarrow>
            (\<exists>c'. lookup fs' p = Some (File c')))"
proof (intro conjI allI impI; (elim conjE)?)
  fix r2 fs2 n c
  assume "copy_stage d out types dry fs = (r2, fs2)" and "lookup fs (d @ [n]) = Some (File c)"
  then show "lookup fs2 (d @ [n]) = Some (File c)" by (rule copy_stage_keeps_src)
next
  fix n c
  assume nd: "\<not> (del \<and> \<not> dry)" and f: "lookup fs (d @ [n]) = Some (File c)"
  from organize_files_no_delete[OF assms nd] obtain r2 where
    "copy_stage d out types dry fs = (r2, fs')" by blast
  from copy_stage_keeps_src[OF this f] show "lookup fs' (d @ [n]) = Some (File c)" .
next
  fix n c
  assume dl: "del" "\<not> dry" and r: "r = Inr ()" and f: "lookup fs (d @ [n]) = Some (File c)"
  from organize_files_delete[of d out types dry del fs "()" fs'] assms dl r obtain fs2 where
    cs: "copy_stage d out types dry fs = (Inr (), fs2)" and
    dn: "delete_non_foldered_files d (Some (default_file_types types)) fs2 = (Inr (), fs')"
    by auto
  from copy_stage_keeps_src[OF cs f] have k2: "lookup fs2 (d @ [n]) = Some (File c)" .
  show "lookup fs' (d @ [n]) =
          (if str_lower (path_suffix n) \<in> set (default_file_types types)
           then None else Some (File c))"
  proof (cases "str_lower (path_suffix n) \<in> set (default_file_types types)")
    case True
    with delete_non_foldered_files_deleted[OF dn k2] show ?thesis by simp
  next
    case False
    with delete_non_foldered_files_lookup[OF dn, of "d @ [n]"] k2 show ?thesis by auto
  qed
next
  fix p c
  assume "lookup fs p = Some (File c)" and "butlast p \<noteq> d"
  with assms show "\<exists>c'. lookup fs' p = Some (File c')" by (rule organize_files_keeps_kind)
qed

lemma organize_files_example:
  "organize_files [''sprites''] None None False True fs_example =
     (Inr (),
      [([''sprites''], Dir),
       ([''sprites'', ''notes.txt''], File ''n''),
       ([''sprites'', ''sub''], Dir),
       ([''sprites'', ''sub'', ''x.svg''], File ''x''),
       ([''sprites'', ''Frame''], Dir),
       ([''sprites'', ''Frame'', ''_FrameA.svg''], File ''a'')])"
  by code_simp

text \<open>
  A run with \<open>delete_originals\<close> on \<open>fs_example\<close>: the top-level \<open>_FrameA.svg\<close> is
  deleted after the copy, \<open>notes.txt\<close> and the file in the subdirectory stay.
\<close>

theorem organize_files_source_files_witness:
  "organize_files [''sprites''] None None False True fs_example =
     (Inr (),
      [([''sprites''], Dir),
       ([''sprites'', ''notes.txt''], File ''n''),
       ([''sprites'', ''sub''], Dir),
       ([''sprites'', ''sub'', ''x.svg''], File ''x''),
       ([''sprites'', ''Frame''], Dir),
       ([''sprites'', ''Frame'', ''_FrameA.svg''], File ''a'')]) \<and>
   lookup fs_example ([''sprites''] @ [''_FrameA.svg'']) = Some (File ''a'') \<and>
   lookup (snd (organize_files [''sprites''] None None False True fs_example))
     ([''sprites''] @ [''_FrameA.svg'']) = None \<and>
   lookup fs_example ([''sprites''] @ [''notes.txt'']) = Some (File ''n'') \<and>
   lookup (snd (organize_files [''sprites''] None None False True fs_example))
     ([''sprites''] @ [''notes.txt'']) = Some (File ''n'') \<and>
   lookup fs_example [''sprites'', ''sub'', ''x.svg''] = Some (File ''x'') \<and>
   (\<exists>c'. lookup (snd (organize_files [''sprites''] None None False True fs_example))
     [''sprites'', ''sub'', ''x.svg''] = Some (File c'))"
proof -
  let ?fs' = "snd (organize_files [''sprites''] None None False True fs_example)"
  have run: "organize_files [''sprites''] None None False True fs_example = (Inr (), ?fs')"
    by (simp add: organize_files_example)
  note th = organize_files_source_files[OF run]
  note deleted = th[THEN conjunct2, THEN conjunct2, THEN conjunct1, rule_format]
  note kept = th[THEN conjunct2, THEN conjunct2, THEN conjunct2, rule_format]
  have flags: "True \<and> \<not> False \<and> (Inr () :: error + unit) = Inr ()" by simp
  have a: "lookup fs_example ([''sprites''] @ [''_FrameA.svg'']) = Some (File ''a'')"
    by (simp add: fs_example_def lookup_def)
  have n: "lookup fs_example ([''sprites''] @ [''notes.txt'']) = Some (File ''n'')"
    by (simp add: fs_example_def lookup_def)
  have x: "lookup fs_example [''sprites'', ''sub'', ''x.svg''] = Some (File ''x'')"
    by (simp add: fs_example_def lookup_def)
  have ma: "str_lower (path_suffix ''_FrameA.svg'') \<in> set (default_file_types None)"
    by code_simp
  have mn: "str_lower (path_suffix ''notes.txt'') \<notin> set (default_file_types None)"
    by code_simp
  have 1: "lookup ?fs' ([''sprites''] @ [''_FrameA.svg'']) = None"
    using deleted[OF flags a] ma by (simp only: if_True)
  have 2: "lookup ?fs' ([''sprites''] @ [''notes.txt'']) = Some (File ''n'')"
    using deleted[OF flags n] mn by (simp only: if_False)
  have b: "butlast [''sprites'', ''sub'', ''x.svg''] \<noteq> [''sprites'']" by simp
  have 3: "\<exists>c'. lookup ?fs' [''sprites'', ''sub'', ''x.svg''] = Some (File c')"
    by (rule kept[OF conjI[OF x b]])
  show ?thesis
    by (intro conjI) (rule organize_files_example a 1 n 2 x 3)+
qed

lemma organize_files_dry_run:
  "snd (organize_files d out types True del fs) = snd (prepare_output d out fs)"
  using copy_stage_dry[of d out types fs]
  by (auto simp: organize_files_def split: prod.splits sum.splits)

lemma organize_files_dry_run_in_place:
  "snd (organize_files d None types True del fs) = fs"
  by (simp add: organize_files_dry_run prepare_output_def)

lemma prepare_output_existing:
  "is_dir fs out \<Longrightarrow> snd (prepare_output d (Some out) fs) = fs"
  by (simp add: prepare_output_def mkdir_exist_ok_def is_dir_def)

text \<open>
  C1. With \<open>dry_run\<close> the loops change nothing (\<open>organize_files_dry_run\<close>), and a
  dry run in place, or into an output directory that exists, leaves the file system as
  it was. But the output directory is made at line 88, before \<open>dry_run\<close> is looked at:
  a dry run into a directory \<open>sorted\<close> that does not exist creates it, although the
  folders of the categories are only made \<open>if not dry_run\<close> (line 116).
\<close>

theorem organize_files_dry_run_output_dir:
  "organize_files [''sprites''] (Some [''sorted'']) None True False
     [([''sprites''], Dir), ([''sprites'', ''_FrameA.svg''], File ''a'')] =
   (Inr (),
    [([''sprites''], Dir), ([''sprites'', ''_FrameA.svg''], File ''a''), ([''sorted''], Dir)])"
  by code_simp

lemma listdir_set:
  assumes "listdir fs d = Inr names"
  shows "set (map (joinpath d) names) = {p. p \<noteq> [] \<and> butlast p = d \<and> p \<in> fst ` set fs}"
proof -
  from assms have names:
    "names = map (last \<circ> fst) (filter (\<lambda>(p, n). p \<noteq> [] \<and> butlast p = d) fs)"
    by (auto simp: listdir_def split: option.splits node.splits)
  have "map (joinpath d) names = map fst (filter (\<lambda>(p, n). p \<noteq> [] \<and> butlast p = d) fs)"
    unfolding names by (induction fs) (auto simp: joinpath_def)
  then show ?thesis by force
qed

lemma is_file_entry: "is_file fs p \<Longrightarrow> p \<noteq> [] \<and> p \<in> fst ` set fs"
proof -
  assume "is_file fs p"
  then obtain c where c: "lookup fs p = Some (File c)" by (auto simp: is_file_iff)
  then have "p \<noteq> []" by (rule lookup_Some_not_root)
  with c have "map_of fs p = Some (File c)" by (simp add: lookup_def)
  then have "(p, File c) \<in> set fs" by (rule map_of_SomeD)
  then have "p \<in> fst ` set fs" by force
  with \<open>p \<noteq> []\<close> show ?thesis by simp
qed

text \<open>
  C10. With \<open>file_types = []\<close> the files that \<open>organize_files\<close> groups are all the
  regular files directly in the source directory, whatever their extension; with
  \<open>file_types = None\<close> they are those whose lower-cased extension is \<open>.svg\<close>.
\<close>

theorem files_to_organize_empty_list:
  assumes "is_dir fs d"
  shows "(\<exists>files. files_to_organize d (Some []) fs = Inr files \<and>
            set files = {p. p \<noteq> [] \<and> butlast p = d \<and> is_file fs p}) \<and>
         (\<exists>files. files_to_organize d None fs = Inr files \<and>
            set files = {p. p \<noteq> [] \<and> butlast p = d \<and> is_file fs p \<and>
                            str_lower (path_suffix (last p)) = ''.svg''})"
proof -
  from assms obtain names where names: "listdir fs d = Inr names"
    by (auto simp: listdir_def is_dir_def)
  note ls = listdir_set[OF names]
  have all: "set (select_files d [] fs names) = {p. p \<noteq> [] \<and> butlast p = d \<and> is_file fs p}"
    unfolding select_files_def using ls is_file_entry[of fs] by auto
  have svg: "set (select_files d [''.svg''] fs names) =
      {p. p \<noteq> [] \<and> butlast p = d \<and> is_file fs p \<and> str_lower (path_suffix (last p)) = ''.svg''}"
    unfolding select_files_def using ls is_file_entry[of fs] by auto
  from all svg names show ?thesis
    by (simp add: files_to_organize_def default_file_types_def)
qed

text \<open>
  In a directory with \<open>a.svg\<close>, \<open>b.png\<close> and a subdirectory, the empty list selects
  both files and \<open>None\<close> selects \<open>a.svg\<close> only.
\<close>

theorem files_to_organize_empty_list_witness:
  "is_dir [([''sprites''], Dir), ([''sprites'', ''a.svg''], File ''a''),
           ([''sprites'', ''b.png''], File ''b''), ([''sprites'', ''sub''], Dir)] [''sprites''] \<and>
   files_to_organize [''sprites''] (Some [])
     [([''sprites''], Dir), ([''sprites'', ''a.svg''], File ''a''),
      ([''sprites'', ''b.png''], File ''b''), ([''sprites'', ''sub''], Dir)] =
     Inr [[''sprites'', ''a.svg''], [''sprites'', ''b.png'']] \<and>
   files_to_organize [''sprites''] None
     [([''sprites''], Dir), ([''sprites'', ''a.svg''], File ''a''),
      ([''sprites'', ''b.png''], File ''b''), ([''sprites'', ''sub''], Dir)] =
     Inr [[''sprites'', ''a.svg'']] \<and>
   (\<exists>files. files_to_organize [''sprites''] (Some [])
      [([''sprites''], Dir), ([''sprites'', ''a.svg''], File ''a''),
       ([''sprites'', ''b.png''], File ''b''), ([''sprites'', ''sub''], Dir)] = Inr files \<and>
      set files = {p. p \<noteq> [] \<and> butlast p = [''sprites''] \<and>
        is_file [([''sprites''], Dir), ([''sprites'', ''a.svg''], File ''a''),
                 ([''sprites'', ''b.png''], File ''b''), ([''sprites'', ''sub''], Dir)] p})"
proof -
  let ?fs = "[([''sprites''], Dir), ([''sprites'', ''a.svg''], File ''a''),
              ([''sprites'', ''b.png''], File ''b''), ([''sprites'', ''sub''], Dir)]"
  have d: "is_dir ?fs [''sprites'']" by code_simp
  have e1: "files_to_organize [''sprites''] (Some []) ?fs =
      Inr [[''sprites'', ''a.svg''], [''sprites'', ''b.png'']]" by code_simp
  have e2: "files_to_organize [''sprites''] None ?fs = Inr [[''sprites'', ''a.svg'']]"
    by code_simp
  show ?thesis
    by (intro conjI) (rule d e1 e2 files_to_organize_empty_list[OF d, THEN conjunct1])+
qed

section \<open>The grouping stage on fresh folders\<close>

lemma lookup_None_iff: "lookup fs p = None \<longleftrightarrow> p \<noteq> [] \<and> p \<notin> fst ` set fs"
  by (auto simp: lookup_def map_of_eq_None_iff)

lemma is_file_key: "is_file fs p \<Longrightarrow> p \<in> fst ` set fs"
proof -
  assume "is_file fs p"
  then obtain c where c: "lookup fs p = Some (File c)" by (auto simp: is_file_iff)
  then have "p \<noteq> []" by (rule lookup_Some_not_root)
  with c have "map_of fs p = Some (File c)" by (simp add: lookup_def)
  then have "(p, File c) \<in> set fs" by (rule map_of_SomeD)
  then show "p \<in> fst ` set fs" by force
qed

lemma copy2_fresh:
  assumes "lookup fs src = Some (File c)" and "dst \<notin> fst ` set fs" and "dst \<noteq> []"
    and "lookup fs (butlast dst) = Some Dir"
  shows "copy2 src dst fs = (Inr (), fs @ [(dst, File c)])"
proof -
  from assms(2,3) have n: "lookup fs dst = None" by (simp add: lookup_None_iff)
  then have nd: "\<not> is_dir fs dst" by (simp add: is_dir_def)
  from n assms(1) have ne: "dst \<noteq> src" by auto
  show ?thesis
    unfolding copy2_def Let_def if_not_P[OF nd]
    using ne n assms(1,4) by simp
qed

lemma mkdir_fresh:
  assumes "p \<notin> fst ` set fs" and "p \<noteq> []" and "lookup fs (butlast p) = Some Dir"
  shows "mkdir_exist_ok p fs = (Inr (), fs @ [(p, Dir)])"
proof -
  from assms(1,2) have "lookup fs p = None" by (simp add: lookup_None_iff)
  with assms(3) show ?thesis by (simp add: mkdir_exist_ok_def)
qed

lemma lookup_append_key:
  "p \<in> fst ` set fs \<Longrightarrow> lookup (fs @ more) p = lookup fs p"
  by (auto simp: lookup_def map_add_def map_of_eq_None_iff split: option.splits)

lemma lookup_append_Some:
  "lookup fs p = Some v \<Longrightarrow> lookup (fs @ more) p = Some v"
  by (cases "p = []") (simp_all add: lookup_def map_add_def)

lemma is_file_append: "is_file fs p \<Longrightarrow> is_file (fs @ more) p"
  using is_file_key[of fs p] by (simp add: is_file_def lookup_append_key)

lemma copy_files_fresh:
  assumes "lookup fs cdir = Some Dir"
    and "\<forall>fp\<in>set fps. is_file fs fp"
    and "\<forall>fp\<in>set fps. joinpath cdir (last fp) \<notin> fst ` set fs"
    and "distinct (map last fps)"
  shows "copy_files False cdir fps fs =
           (Inr (), fs @ map (\<lambda>fp. (joinpath cdir (last fp), the (lookup fs fp))) fps)"
  using assms
proof (induction fps arbitrary: fs)
  case Nil
  then show ?case by simp
next
  case (Cons fp fps)
  let ?dest = "joinpath cdir (last fp)"
  from Cons.prems(2) have isf: "is_file fs fp" by simp
  then obtain c where c: "lookup fs fp = Some (File c)" by (auto simp: is_file_iff)
  from Cons.prems(3) have fresh: "?dest \<notin> fst ` set fs" by simp
  have ne: "\<not> (False \<or> fp = ?dest)"
  proof
    assume "False \<or> fp = ?dest"
    then have "fp = ?dest" by simp
    with fresh have "fp \<notin> fst ` set fs" by metis
    with is_file_key[OF isf] show False by contradiction
  qed
  have dne: "?dest \<noteq> []" by (simp add: joinpath_def)
  have par: "lookup fs (butlast ?dest) = Some Dir"
    using Cons.prems(1) by (simp add: joinpath_def)
  let ?fs1 = "fs @ [(?dest, File c)]"
  have cp: "copy2 fp ?dest fs = (Inr (), ?fs1)" by (rule copy2_fresh[OF c fresh dne par])
  have step: "copy_files False cdir (fp # fps) fs = copy_files False cdir fps ?fs1"
    by (simp add: copy_files_step[OF ne cp])
  have ih: "copy_files False cdir fps ?fs1 =
      (Inr (), ?fs1 @ map (\<lambda>fp. (joinpath cdir (last fp), the (lookup ?fs1 fp))) fps)"
  proof (rule Cons.IH)
    show "lookup ?fs1 cdir = Some Dir"
      using Cons.prems(1) by (rule lookup_append_Some)
    show "\<forall>fp\<in>set fps. is_file ?fs1 fp"
      using Cons.prems(2) by (simp add: is_file_append)
    show "\<forall>fp'\<in>set fps. joinpath cdir (last fp') \<notin> fst ` set ?fs1"
    proof
      fix fp' assume m: "fp' \<in> set fps"
      from Cons.prems(4) have "last fp \<notin> last ` set fps" by simp
      with m have "last fp' \<noteq> last fp" by (metis imageI)
      then have "joinpath cdir (last fp') \<noteq> ?dest" by (simp add: joinpath_def)
      with m Cons.prems(3) show "joinpath cdir (last fp') \<notin> fst ` set ?fs1" by auto
    qed
    show "distinct (map last fps)" using Cons.prems(4) by simp
  qed
  have same: "map (\<lambda>fp. (joinpath cdir (last fp), the (lookup ?fs1 fp))) fps =
              map (\<lambda>fp. (joinpath cdir (last fp), the (lookup fs fp))) fps"
  proof (rule map_cong[OF refl])
    fix x assume "x \<in> set fps"
    with Cons.prems(2) have "x \<in> fst ` set fs" by (simp add: is_file_key)
    then show "(joinpath cdir (last x), the (lookup ?fs1 x)) =
               (joinpath cdir (last x), the (lookup fs x))"
      by (simp add: lookup_append_key)
  qed
  show ?case unfolding step ih same using c by simp
qed

lemma keys_category_entries:
  "fst ` set (category_entries fs out (c, fps)) =
     insert (joinpath out c) ((\<lambda>fp. joinpath (joinpath out c) (last fp)) ` set fps)"
  by (auto simp: category_entries_def image_iff)

lemma prefix_sibling:
  assumes "prefix (joinpath out c') p"
    and "p = joinpath out c \<or> p = joinpath (joinpath out c) n"
  shows "c' = c"
proof -
  from assms(1) obtain zs where "p = (out @ [c']) @ zs" by (auto simp: prefix_def joinpath_def)
  with assms(2) have "out @ [c] = out @ (c' # zs) \<or> out @ [c, n] = out @ (c' # zs)"
    by (auto simp: joinpath_def)
  then show ?thesis by auto
qed

lemma category_entries_cong:
  assumes "\<forall>fp\<in>set (snd cf). lookup fs1 fp = lookup fs fp"
  shows "category_entries fs1 out cf = category_entries fs out cf"
  using assms by (simp add: category_entries_def)

lemma planned_entries_cong:
  assumes "\<forall>fp\<in>set (concat (map snd cats)). lookup fs1 fp = lookup fs fp"
  shows "planned_entries fs1 out cats = planned_entries fs out cats"
proof -
  have "map (category_entries fs1 out) cats = map (category_entries fs out) cats"
  proof (rule map_cong[OF refl])
    fix cf assume "cf \<in> set cats"
    with assms have "\<forall>fp\<in>set (snd cf). lookup fs1 fp = lookup fs fp" by auto
    then show "category_entries fs1 out cf = category_entries fs out cf"
      by (rule category_entries_cong)
  qed
  then show ?thesis unfolding planned_entries_def by (rule arg_cong)
qed

lemma move_categories_fresh:
  assumes "lookup fs out = Some Dir"
    and "\<forall>fp\<in>set (concat (map snd cats)). is_file fs fp"
    and "\<forall>c\<in>set (map fst cats). \<forall>p\<in>fst ` set fs. \<not> prefix (joinpath out c) p"
    and "distinct (map fst cats)"
    and "distinct (map last (concat (map snd cats)))"
  shows "move_categories False out cats fs = (Inr (), fs @ planned_entries fs out cats)"
  using assms
proof (induction cats arbitrary: fs)
  case Nil
  then show ?case by (simp add: planned_entries_def)
next
  case (Cons cf cats)
  obtain c fps where cf: "cf = (c, fps)" by (cases cf)
  let ?cdir = "joinpath out c"
  let ?fs0 = "fs @ [(?cdir, Dir)]"
  let ?new = "category_entries fs out (c, fps)"
  let ?fs1 = "fs @ ?new"
  have files: "\<forall>fp\<in>set fps. is_file fs fp"
    and files': "\<forall>fp\<in>set (concat (map snd cats)). is_file fs fp"
    using Cons.prems(2) cf by auto
  have fresh_c: "\<forall>p\<in>fst ` set fs. \<not> prefix ?cdir p"
    and fresh': "\<forall>c'\<in>set (map fst cats). \<forall>p\<in>fst ` set fs. \<not> prefix (joinpath out c') p"
    using Cons.prems(3) cf by auto
  have dc: "c \<notin> set (map fst cats)" "distinct (map fst cats)"
    using Cons.prems(4) cf by auto
  have dl: "distinct (map last fps)" "distinct (map last (concat (map snd cats)))"
    using Cons.prems(5) cf by auto
  have cnew: "?cdir \<notin> fst ` set fs" using fresh_c by auto
  have cne: "?cdir \<noteq> []" by (simp add: joinpath_def)
  have par: "lookup fs (butlast ?cdir) = Some Dir" using Cons.prems(1) by (simp add: joinpath_def)
  have mk: "(if \<not> False then mkdir_exist_ok ?cdir fs else (Inr (), fs)) = (Inr (), ?fs0)"
    by (simp add: mkdir_fresh[OF cnew cne par])
  have cp0: "copy_files False ?cdir fps ?fs0 =
      (Inr (), ?fs0 @ map (\<lambda>fp. (joinpath ?cdir (last fp), the (lookup ?fs0 fp))) fps)"
  proof (rule copy_files_fresh)
    show "lookup ?fs0 ?cdir = Some Dir"
      using cnew cne by (simp add: lookup_append_new lookup_None_iff)
    show "\<forall>fp\<in>set fps. is_file ?fs0 fp" using files by (simp add: is_file_append)
    show "\<forall>fp\<in>set fps. joinpath ?cdir (last fp) \<notin> fst ` set ?fs0"
    proof
      fix fp assume "fp \<in> set fps"
      have "prefix ?cdir (joinpath ?cdir (last fp))" by (simp add: joinpath_def)
      with fresh_c have "joinpath ?cdir (last fp) \<notin> fst ` set fs" by blast
      moreover have "joinpath ?cdir (last fp) \<noteq> ?cdir" by (simp add: joinpath_def)
      ultimately show "joinpath ?cdir (last fp) \<notin> fst ` set ?fs0" by simp
    qed
    show "distinct (map last fps)" by (rule dl(1))
  qed
  have same0: "map (\<lambda>fp. (joinpath ?cdir (last fp), the (lookup ?fs0 fp))) fps =
               map (\<lambda>fp. (joinpath ?cdir (last fp), the (lookup fs fp))) fps"
  proof (rule map_cong[OF refl])
    fix x assume "x \<in> set fps"
    with files have "x \<in> fst ` set fs" by (simp add: is_file_key)
    then show "(joinpath ?cdir (last x), the (lookup ?fs0 x)) =
               (joinpath ?cdir (last x), the (lookup fs x))"
      by (simp add: lookup_append_key)
  qed
  have cp: "copy_files False ?cdir fps ?fs0 = (Inr (), ?fs1)"
    unfolding cp0 same0 by (simp add: category_entries_def)
  have step: "move_categories False out (cf # cats) fs = move_categories False out cats ?fs1"
    unfolding cf by (simp add: move_categories_step[OF mk cp])
  have keys1: "fst ` set ?fs1 = fst ` set fs \<union> fst ` set ?new" by (simp add: image_Un)
  have ih: "move_categories False out cats ?fs1 = (Inr (), ?fs1 @ planned_entries ?fs1 out cats)"
  proof (rule Cons.IH)
    show "lookup ?fs1 out = Some Dir" using Cons.prems(1) by (rule lookup_append_Some)
    show "\<forall>fp\<in>set (concat (map snd cats)). is_file ?fs1 fp"
      using files' by (simp add: is_file_append)
    show "\<forall>c'\<in>set (map fst cats). \<forall>p\<in>fst ` set ?fs1. \<not> prefix (joinpath out c') p"
    proof (intro ballI)
      fix c' p assume c': "c' \<in> set (map fst cats)" and p: "p \<in> fst ` set ?fs1"
      from c' dc(1) have ne: "c' \<noteq> c" by auto
      from p keys1 consider "p \<in> fst ` set fs" | "p \<in> fst ` set ?new" by blast
      then show "\<not> prefix (joinpath out c') p"
      proof cases
        case 1
        with fresh' c' show ?thesis by blast
      next
        case 2
        then have "p = ?cdir \<or> (\<exists>fp. p = joinpath ?cdir (last fp))"
          unfolding keys_category_entries by auto
        then obtain n where "p = ?cdir \<or> p = joinpath ?cdir n" by blast
        with prefix_sibling[of out c' p c n] ne show ?thesis by blast
      qed
    qed
    show "distinct (map fst cats)" by (rule dc(2))
    show "distinct (map last (concat (map snd cats)))" by (rule dl(2))
  qed
  have same: "planned_entries ?fs1 out cats = planned_entries fs out cats"
  proof (rule planned_entries_cong, rule ballI)
    fix fp assume "fp \<in> set (concat (map snd cats))"
    with files' have "is_file fs fp" by blast
    then have "fp \<in> fst ` set fs" by (rule is_file_key)
    then show "lookup ?fs1 fp = lookup fs fp" by (rule lookup_append_key)
  qed
  have "move_categories False out (cf # cats) fs = (Inr (), ?fs1 @ planned_entries fs out cats)"
    using step ih same by simp
  then show ?case by (simp add: cf planned_entries_def)
qed

lemma group_add_map_of:
  "map_of (group_add k v acc) c =
     (if c = k then Some ((case map_of acc k of None \<Rightarrow> [] | Some l \<Rightarrow> l) @ [v])
      else map_of acc c)"
  by (induction acc) auto

lemma group_add_fst:
  "map fst (group_add k v acc) =
     (if k \<in> set (map fst acc) then map fst acc else map fst acc @ [k])"
proof (induction acc)
  case Nil
  show ?case by simp
next
  case (Cons kv acc)
  obtain k' l where kv: "kv = (k', l)" by (cases kv)
  show ?case using Cons by (cases "k' = k") (simp_all add: kv)
qed

lemma group_add_distinct: "distinct (map fst acc) \<Longrightarrow> distinct (map fst (group_add k v acc))"
  by (simp add: group_add_fst)

lemma group_files_map_of:
  assumes "group_files files acc = Inr cats" and "distinct (map fst acc)"
  shows "distinct (map fst cats) \<and>
         (\<forall>c. map_of cats c =
            (case map_of acc c of
               None \<Rightarrow>
                 (if filter (\<lambda>f. extract_category (last f) = Inr c) files = [] then None
                  else Some (filter (\<lambda>f. extract_category (last f) = Inr c) files))
             | Some l \<Rightarrow> Some (l @ filter (\<lambda>f. extract_category (last f) = Inr c) files)))"
  using assms
proof (induction files arbitrary: acc)
  case Nil
  then show ?case by (auto split: option.splits)
next
  case (Cons f files)
  show ?case
  proof (cases "extract_category (last f)")
    case (Inl e)
    with Cons.prems show ?thesis by simp
  next
    case (Inr k)
    with Cons.prems have g: "group_files files (group_add k f acc) = Inr cats" by simp
    from Cons.IH[OF g group_add_distinct[OF Cons.prems(2)]]
    have d: "distinct (map fst cats)" and
      m: "\<And>c. map_of cats c =
            (case map_of (group_add k f acc) c of
               None \<Rightarrow>
                 (if filter (\<lambda>f. extract_category (last f) = Inr c) files = [] then None
                  else Some (filter (\<lambda>f. extract_category (last f) = Inr c) files))
             | Some l \<Rightarrow> Some (l @ filter (\<lambda>f. extract_category (last f) = Inr c) files))"
      by simp_all
    show ?thesis
    proof (intro conjI allI)
      show "distinct (map fst cats)" by (rule d)
      fix c
      show "map_of cats c =
            (case map_of acc c of
               None \<Rightarrow>
                 (if filter (\<lambda>f. extract_category (last f) = Inr c) (f # files) = [] then None
                  else Some (filter (\<lambda>f. extract_category (last f) = Inr c) (f # files)))
             | Some l \<Rightarrow> Some (l @ filter (\<lambda>f. extract_category (last f) = Inr c) (f # files)))"
        unfolding m[of c] group_add_map_of using Inr
        by (cases "c = k") (auto split: option.splits)
    qed
  qed
qed

lemma group_files_members:
  assumes "group_files files [] = Inr cats"
  shows "distinct (map fst cats)"
    and "(c, fps) \<in> set cats \<longleftrightarrow>
           fps \<noteq> [] \<and> fps = filter (\<lambda>f. extract_category (last f) = Inr c) files"
proof -
  from group_files_map_of[OF assms] have d: "distinct (map fst cats)" and
    m: "\<And>c. map_of cats c =
          (if filter (\<lambda>f. extract_category (last f) = Inr c) files = [] then None
           else Some (filter (\<lambda>f. extract_category (last f) = Inr c) files))"
    by simp_all
  show "distinct (map fst cats)" by (rule d)
  have "(c, fps) \<in> set cats \<longleftrightarrow> map_of cats c = Some fps"
    using d by (auto intro: map_of_is_SomeI dest: map_of_SomeD)
  then show "(c, fps) \<in> set cats \<longleftrightarrow>
           fps \<noteq> [] \<and> fps = filter (\<lambda>f. extract_category (last f) = Inr c) files"
    unfolding m[of c] by auto
qed

lemma listdir_names:
  assumes "listdir fs d = Inr names"
  shows "map (joinpath d) names = map fst (filter (\<lambda>(p, n). p \<noteq> [] \<and> butlast p = d) fs)"
proof -
  from assms have names:
    "names = map (last \<circ> fst) (filter (\<lambda>(p, n). p \<noteq> [] \<and> butlast p = d) fs)"
    by (auto simp: listdir_def split: option.splits node.splits)
  show ?thesis unfolding names by (induction fs) (auto simp: joinpath_def)
qed

lemma files_to_organize_props:
  assumes "files_to_organize d types fs = Inr files" and "distinct (map fst fs)"
  shows "lookup fs d = Some Dir"
    and "\<forall>fp\<in>set files. is_file fs fp"
    and "distinct (map last files)"
proof -
  from assms(1) obtain names where names: "listdir fs d = Inr names"
    and files: "files = select_files d (default_file_types types) fs names"
    by (auto simp: files_to_organize_def split: sum.splits)
  from names show "lookup fs d = Some Dir"
    by (auto simp: listdir_def split: option.splits node.splits)
  show "\<forall>fp\<in>set files. is_file fs fp" unfolding files select_files_def by simp
  have "distinct (map (joinpath d) names)"
    unfolding listdir_names[OF names] using assms(2) by (rule distinct_map_filter)
  then have dn: "distinct names" by (simp add: distinct_map)
  have "map last files = filter (\<lambda>n. is_file fs (joinpath d n) \<and>
          (default_file_types types = [] \<or>
           str_lower (path_suffix n) \<in> set (default_file_types types))) names"
    unfolding files select_files_def by (induction names) (auto simp: joinpath_def)
  with dn show "distinct (map last files)" by simp
qed

lemma prepare_output_props:
  assumes "prepare_output d out0 fs = (Inr out, fs1)" and "distinct (map fst fs)"
  shows "distinct (map fst fs1)"
    and "fst ` set fs1 \<subseteq> insert out (fst ` set fs)"
    and "out0 \<noteq> None \<Longrightarrow> lookup fs1 out = Some Dir"
    and "out0 = None \<Longrightarrow> out = d \<and> fs1 = fs"
proof -
  have "distinct (map fst fs1) \<and> fst ` set fs1 \<subseteq> insert out (fst ` set fs) \<and>
        (out0 \<noteq> None \<longrightarrow> lookup fs1 out = Some Dir) \<and> (out0 = None \<longrightarrow> out = d \<and> fs1 = fs)"
  proof (cases out0)
    case None
    with assms show ?thesis by (auto simp: prepare_output_def)
  next
    case (Some o')
    with assms(1) have o: "o' = out" and mk: "mkdir_exist_ok out fs = (Inr (), fs1)"
      by (auto simp: prepare_output_def split: prod.splits sum.splits)
    show ?thesis
    proof (cases "lookup fs out")
      case None
      with mk have fs1: "fs1 = fs @ [(out, Dir)]"
        by (auto simp: mkdir_exist_ok_def split: option.splits node.splits)
      from None have "out \<notin> fst ` set fs" by (simp add: lookup_None_iff)
      with fs1 assms(2) Some None show ?thesis by (auto simp: lookup_append_new)
    next
      case (Some v)
      with mk have "fs1 = fs \<and> v = Dir"
        by (auto simp: mkdir_exist_ok_def split: option.splits node.splits)
      with Some assms(2) \<open>out0 = Some o'\<close> show ?thesis by auto
    qed
  qed
  then show "distinct (map fst fs1)"
    and "fst ` set fs1 \<subseteq> insert out (fst ` set fs)"
    and "out0 \<noteq> None \<Longrightarrow> lookup fs1 out = Some Dir"
    and "out0 = None \<Longrightarrow> out = d \<and> fs1 = fs" by blast+
qed

lemma mkdir_distinct:
  "mkdir_exist_ok p fs = (r, fs') \<Longrightarrow> distinct (map fst fs) \<Longrightarrow> distinct (map fst fs')"
  by (auto simp: mkdir_exist_ok_def lookup_None_iff split: option.splits node.splits)

lemma copy2_distinct:
  assumes "copy2 src dst0 fs = (r, fs')" and "distinct (map fst fs)"
  shows "distinct (map fst fs')"
proof -
  define dst where "dst = (if is_dir fs dst0 then joinpath dst0 (last src) else dst0)"
  from assms(1) have "fs' = fs \<or> fs' = AList.update dst (File (SOME c. lookup fs src = Some (File c))) fs
      \<or> (\<exists>c. fs' = fs @ [(dst, File c)] \<and> lookup fs dst = None)"
    unfolding copy2_def Let_def dst_def[symmetric]
    by (auto split: if_splits option.splits node.splits)
  then show ?thesis
    using assms(2) by (auto simp: distinct_update lookup_None_iff)
qed

lemma copy_files_distinct:
  "copy_files dry cdir fps fs = (r, fs') \<Longrightarrow> distinct (map fst fs) \<Longrightarrow> distinct (map fst fs')"
proof (induction fps arbitrary: fs)
  case Nil
  then show ?case by simp
next
  case (Cons fp fps)
  let ?dest = "joinpath cdir (last fp)"
  show ?case
  proof (cases "dry \<or> fp = ?dest")
    case True
    with Cons.prems(1) have "copy_files dry cdir fps fs = (r, fs')"
      by (simp only: copy_files_skip)
    from Cons.IH[OF this Cons.prems(2)] show ?thesis .
  next
    case False
    obtain r1 fs1 where c: "copy2 fp ?dest fs = (r1, fs1)" by (cases "copy2 fp ?dest fs")
    from copy2_distinct[OF c Cons.prems(2)] have d1: "distinct (map fst fs1)" .
    show ?thesis
    proof (cases r1)
      case (Inl e)
      with Cons.prems(1) have "fs' = fs1" by (simp add: copy_files_step[OF False c])
      with d1 show ?thesis by simp
    next
      case (Inr u)
      with Cons.prems(1) have "copy_files dry cdir fps fs1 = (r, fs')"
        by (simp add: copy_files_step[OF False c])
      from Cons.IH[OF this d1] show ?thesis .
    qed
  qed
qed

lemma move_categories_distinct:
  "move_categories dry out cats fs = (r, fs') \<Longrightarrow> distinct (map fst fs) \<Longrightarrow>
   distinct (map fst fs')"
proof (induction cats arbitrary: fs)
  case Nil
  then show ?case by simp
next
  case (Cons cf cats)
  obtain category fps where cf: "cf = (category, fps)" by (cases cf)
  let ?cdir = "joinpath out category"
  obtain r0 fs0 where m: "(if \<not> dry then mkdir_exist_ok ?cdir fs else (Inr (), fs)) = (r0, fs0)"
    by (cases "if \<not> dry then mkdir_exist_ok ?cdir fs else (Inr (), fs)")
  have d0: "distinct (map fst fs0)"
    using m Cons.prems(2) mkdir_distinct[of ?cdir fs r0 fs0] by (auto split: if_splits)
  obtain r1 fs1 where c: "copy_files dry ?cdir fps fs0 = (r1, fs1)"
    by (cases "copy_files dry ?cdir fps fs0")
  from copy_files_distinct[OF c d0] have d1: "distinct (map fst fs1)" .
  show ?case
  proof (cases r0)
    case (Inl e)
    with Cons.prems(1) have "fs' = fs0"
      unfolding cf move_categories_step[OF m c] by simp
    with d0 show ?thesis by simp
  next
    case (Inr u)
    note r0 = Inr
    show ?thesis
    proof (cases r1)
      case (Inl e)
      with r0 Cons.prems(1) have "fs' = fs1"
        unfolding cf move_categories_step[OF m c] by simp
      with d1 show ?thesis by simp
    next
      case (Inr u')
      with r0 Cons.prems(1) have "move_categories dry out cats fs1 = (r, fs')"
        unfolding cf move_categories_step[OF m c] by simp
      from Cons.IH[OF this d1] show ?thesis .
    qed
  qed
qed

lemma lookup_member:
  "distinct (map fst fs) \<Longrightarrow> (p, v) \<in> set fs \<Longrightarrow> p \<noteq> [] \<Longrightarrow> lookup fs p = Some v"
  by (simp add: lookup_def)

lemma planned_folder_member:
  "(c, fps) \<in> set cats \<Longrightarrow> (joinpath out c, Dir) \<in> set (planned_entries fs out cats)"
  by (force simp: planned_entries_def category_entries_def)

lemma planned_file_member:
  "(c, fps) \<in> set cats \<Longrightarrow> fp \<in> set fps \<Longrightarrow>
   (joinpath (joinpath out c) (last fp), the (lookup fs fp)) \<in> set (planned_entries fs out cats)"
  by (force simp: planned_entries_def category_entries_def)

lemma planned_dirs:
  assumes "\<forall>fp\<in>set (concat (map snd cats)). is_file fs fp"
  shows "(p, Dir) \<in> set (planned_entries fs out cats) \<longleftrightarrow> p \<in> joinpath out ` set (map fst cats)"
proof
  assume "(p, Dir) \<in> set (planned_entries fs out cats)"
  then obtain c fps where cf: "(c, fps) \<in> set cats"
    and m: "(p, Dir) \<in> set (category_entries fs out (c, fps))"
    by (auto simp: planned_entries_def)
  have "p = joinpath out c"
  proof (rule ccontr)
    assume "p \<noteq> joinpath out c"
    with m obtain fp where fp: "fp \<in> set fps" and "the (lookup fs fp) = Dir"
      by (auto simp: category_entries_def)
    moreover from fp cf assms have "is_file fs fp" by auto
    ultimately show False by (auto simp: is_file_iff)
  qed
  with cf show "p \<in> joinpath out ` set (map fst cats)" by force
next
  assume "p \<in> joinpath out ` set (map fst cats)"
  then obtain c fps where "(c, fps) \<in> set cats" and "p = joinpath out c" by auto
  then show "(p, Dir) \<in> set (planned_entries fs out cats)"
    by (simp add: planned_folder_member)
qed

lemma concat_map_select:
  assumes "distinct (map fst cats)" and "(c, fps) \<in> set cats"
  shows "concat (map (\<lambda>cf. if fst cf = c then g cf else []) cats) = g (c, fps)"
  using assms
proof (induction cats)
  case Nil
  then show ?case by simp
next
  case (Cons cf cats)
  show ?case
  proof (cases "cf = (c, fps)")
    case True
    with Cons.prems(1) have "\<forall>x\<in>set cats. fst x \<noteq> c" by auto
    then have "concat (map (\<lambda>cf. if fst cf = c then g cf else []) cats) = []"
      by (induction cats) auto
    with True show ?thesis by simp
  next
    case False
    with Cons.prems(2) have m: "(c, fps) \<in> set cats" by simp
    from Cons.prems(1) have "fst cf \<notin> fst ` set cats" by simp
    moreover from m have "c \<in> fst ` set cats" by (metis fst_conv imageI)
    ultimately have "fst cf \<noteq> c" by metis
    with Cons.IH[OF _ m] Cons.prems(1) show ?thesis by simp
  qed
qed

lemma children_category_entries:
  "filter (\<lambda>(p, n). p \<noteq> [] \<and> butlast p = joinpath out c) (category_entries fs out cf) =
     (if fst cf = c
      then map (\<lambda>fp. (joinpath (joinpath out c) (last fp), the (lookup fs fp))) (snd cf)
      else [])"
proof -
  have a: "butlast (joinpath out (fst cf)) \<noteq> joinpath out c" by (simp add: joinpath_def)
  have b: "\<And>n. (butlast (joinpath (joinpath out (fst cf)) n) = joinpath out c) = (fst cf = c)"
    by (simp add: joinpath_def butlast_append)
  have c: "\<And>n. joinpath (joinpath out (fst cf)) n \<noteq> []" by (simp add: joinpath_def)
  show ?thesis
    unfolding category_entries_def by (simp add: a b c filter_map comp_def)
qed

lemma children_planned:
  assumes "distinct (map fst cats)" and "(c, fps) \<in> set cats"
  shows "filter (\<lambda>(p, n). p \<noteq> [] \<and> butlast p = joinpath out c) (planned_entries fs out cats) =
           map (\<lambda>fp. (joinpath (joinpath out c) (last fp), the (lookup fs fp))) fps"
proof -
  have "filter (\<lambda>(p, n). p \<noteq> [] \<and> butlast p = joinpath out c) (planned_entries fs out cats) =
        concat (map (\<lambda>cf. if fst cf = c
          then map (\<lambda>fp. (joinpath (joinpath out c) (last fp), the (lookup fs fp))) (snd cf)
          else []) cats)"
    unfolding planned_entries_def filter_concat map_map comp_def children_category_entries ..
  also have "\<dots> = map (\<lambda>fp. (joinpath (joinpath out c) (last fp), the (lookup fs fp))) fps"
    using concat_map_select[OF assms,
        of "\<lambda>cf. map (\<lambda>fp. (joinpath (joinpath out c) (last fp), the (lookup fs fp))) (snd cf)"]
    by simp
  finally show ?thesis .
qed

lemma children_fresh:
  assumes "\<forall>p\<in>fst ` set fs. \<not> prefix q p"
  shows "filter (\<lambda>(p, n). p \<noteq> [] \<and> butlast p = q) fs = []"
proof -
  have "\<And>p n. (p, n) \<in> set fs \<Longrightarrow> \<not> (p \<noteq> [] \<and> butlast p = q)"
  proof
    fix p n assume m: "(p, n) \<in> set fs" and "p \<noteq> [] \<and> butlast p = q"
    then have "p = q @ [last p]" by (metis append_butlast_last_id)
    then have "prefix q p" by (metis prefixI)
    moreover from m have "p \<in> fst ` set fs" by force
    ultimately show False using assms by blast
  qed
  then show ?thesis by (auto simp: filter_empty_conv)
qed

lemma copy_stage_fresh:
  assumes "distinct (map fst fs)"
    and "prepare_output d out0 fs = (Inr out, fs1)"
    and "files_to_organize d types0 fs1 = Inr files"
    and "group_files files [] = Inr cats"
    and "\<forall>c\<in>set (map fst cats). \<forall>p\<in>fst ` set fs. \<not> prefix (joinpath out c) p"
  shows "copy_stage d out0 types0 False fs = (Inr (), fs1 @ planned_entries fs1 out cats)"
    and "distinct (map fst (fs1 @ planned_entries fs1 out cats))"
    and "lookup fs1 d = Some Dir"
    and "\<forall>fp\<in>set (concat (map snd cats)). is_file fs1 fp"
    and "\<forall>c\<in>set (map fst cats). \<forall>p\<in>fst ` set fs1. \<not> prefix (joinpath out c) p"
    and "\<forall>fp\<in>set files. lookup fs fp = lookup fs1 fp"
proof -
  note po = prepare_output_props[OF assms(2,1)]
  note fo = files_to_organize_props[OF assms(3) po(1)]
  have outdir: "lookup fs1 out = Some Dir"
    using po(3,4) fo(1) by (cases out0) auto
  from group_files_mset[OF assms(4)] have ms: "mset (concat (map snd cats)) = mset files"
    by simp
  then have setc: "set (concat (map snd cats)) = set files" by (rule mset_eq_setD)
  from ms have "mset (map last (concat (map snd cats))) = mset (map last files)"
    by (metis mset_map)
  with fo(3) have dl: "distinct (map last (concat (map snd cats)))"
    by (metis mset_eq_imp_distinct_iff)
  have fresh1: "\<forall>c\<in>set (map fst cats). \<forall>p\<in>fst ` set fs1. \<not> prefix (joinpath out c) p"
  proof (intro ballI)
    fix c p assume c: "c \<in> set (map fst cats)" and p: "p \<in> fst ` set fs1"
    from p po(2) have "p = out \<or> p \<in> fst ` set fs" by blast
    then show "\<not> prefix (joinpath out c) p"
    proof
      assume "p = out"
      then show ?thesis by (auto simp: joinpath_def prefix_def)
    next
      assume "p \<in> fst ` set fs"
      with assms(5) c show ?thesis by blast
    qed
  qed
  have mv: "move_categories False out cats fs1 = (Inr (), fs1 @ planned_entries fs1 out cats)"
  proof (rule move_categories_fresh[OF outdir _ fresh1 _ dl])
    show "\<forall>fp\<in>set (concat (map snd cats)). is_file fs1 fp" unfolding setc by (rule fo(2))
    show "distinct (map fst cats)" by (rule group_files_members(1)[OF assms(4)])
  qed
  show "copy_stage d out0 types0 False fs = (Inr (), fs1 @ planned_entries fs1 out cats)"
    unfolding copy_stage_def by (simp add: assms(2,3,4) mv)
  show "distinct (map fst (fs1 @ planned_entries fs1 out cats))"
    by (rule move_categories_distinct[OF mv po(1)])
  show "lookup fs1 d = Some Dir" by (rule fo(1))
  show "\<forall>fp\<in>set (concat (map snd cats)). is_file fs1 fp" unfolding setc by (rule fo(2))
  show "\<forall>c\<in>set (map fst cats). \<forall>p\<in>fst ` set fs1. \<not> prefix (joinpath out c) p"
    by (rule fresh1)
  show "\<forall>fp\<in>set files. lookup fs fp = lookup fs1 fp"
  proof
    fix fp assume "fp \<in> set files"
    with fo(2) have f1: "is_file fs1 fp" by blast
    then obtain c where c: "lookup fs1 fp = Some (File c)" by (auto simp: is_file_iff)
    with outdir have "fp \<noteq> out" by auto
    with is_file_key[OF f1] po(2) have "fp \<in> fst ` set fs" by blast
    moreover from c have "fp \<noteq> []" by (rule lookup_Some_not_root)
    ultimately obtain v where v: "lookup fs fp = Some v"
      by (cases "lookup fs fp") (auto simp: lookup_None_iff)
    from prepare_output_keeps[OF assms(2) v] v show "lookup fs fp = lookup fs1 fp" by simp
  qed
qed


lemma delete_matching_children:
  "delete_matching d types names fs = (r, fs') \<Longrightarrow> q \<noteq> d \<Longrightarrow>
   filter (\<lambda>(p, n). p \<noteq> [] \<and> butlast p = q) fs' =
   filter (\<lambda>(p, n). p \<noteq> [] \<and> butlast p = q) fs"
proof (induction names arbitrary: fs)
  case Nil
  then show ?case by simp
next
  case (Cons name names)
  let ?item = "joinpath d name"
  have del: "filter (\<lambda>(p, n). p \<noteq> [] \<and> butlast p = q) (AList.delete ?item fs) =
             filter (\<lambda>(p, n). p \<noteq> [] \<and> butlast p = q) fs"
    unfolding AList.delete_eq filter_filter
    using Cons.prems(2) by (intro filter_cong[OF refl]) (auto simp: joinpath_def)
  show ?case
  proof (cases "is_file fs ?item \<and> str_lower (path_suffix name) \<in> set types")
    case True
    with Cons.prems(1) have "delete_matching d types names (AList.delete ?item fs) = (r, fs')"
      by (simp add: delete_matching_Cons)
    from Cons.IH[OF this Cons.prems(2)] del show ?thesis by simp
  next
    case False
    with Cons.prems(1) have "delete_matching d types names fs = (r, fs')"
      by (simp add: delete_matching_Cons)
    from Cons.IH[OF this Cons.prems(2)] show ?thesis .
  qed
qed

lemma delete_non_foldered_files_children:
  assumes "delete_non_foldered_files d (Some types) fs = (r, fs')" and "q \<noteq> d"
  shows "filter (\<lambda>(p, n). p \<noteq> [] \<and> butlast p = q) fs' =
         filter (\<lambda>(p, n). p \<noteq> [] \<and> butlast p = q) fs"
proof (cases "listdir fs d")
  case (Inl e)
  with assms(1) show ?thesis by (simp add: delete_non_foldered_files_def)
next
  case (Inr names)
  with assms(1) have "delete_matching d types names fs = (r, fs')"
    by (simp add: delete_non_foldered_files_def default_file_types_def)
  from delete_matching_children[OF this assms(2)] show ?thesis .
qed

lemma delete_non_foldered_files_ok:
  assumes "lookup fs d = Some Dir"
  shows "fst (delete_non_foldered_files d types fs) = Inr ()"
proof -
  from assms obtain names where "listdir fs d = Inr names" by (simp add: listdir_def)
  then show ?thesis by (simp add: delete_non_foldered_files_def delete_matching_ok)
qed

lemma listdir_cong:
  assumes "lookup fs' q = lookup fs q"
    and "filter (\<lambda>(p, n). p \<noteq> [] \<and> butlast p = q) fs' =
         filter (\<lambda>(p, n). p \<noteq> [] \<and> butlast p = q) fs"
  shows "listdir fs' q = listdir fs q"
  unfolding listdir_def assms(1) assms(2) by (rule refl)

lemma planned_facts:
  assumes d2: "distinct (map fst (fs1 @ planned_entries fs1 out cats))"
    and files: "\<forall>fp\<in>set (concat (map snd cats)). is_file fs1 fp"
    and fresh: "\<forall>c\<in>set (map fst cats). \<forall>p\<in>fst ` set fs1. \<not> prefix (joinpath out c) p"
    and dc: "distinct (map fst cats)"
    and cf: "(c, fps) \<in> set cats"
  shows "lookup (fs1 @ planned_entries fs1 out cats) (joinpath out c) = Some Dir"
    and "listdir (fs1 @ planned_entries fs1 out cats) (joinpath out c) = Inr (map last fps)"
    and "\<forall>fp\<in>set fps. lookup (fs1 @ planned_entries fs1 out cats)
           (joinpath (joinpath out c) (last fp)) = lookup fs1 fp"
proof -
  let ?fs2 = "fs1 @ planned_entries fs1 out cats"
  have "(joinpath out c, Dir) \<in> set ?fs2"
    using planned_folder_member[OF cf] by simp
  then show dir: "lookup ?fs2 (joinpath out c) = Some Dir"
    by (rule lookup_member[OF d2]) (simp add: joinpath_def)
  from cf have "c \<in> set (map fst cats)" by force
  with fresh have "\<forall>p\<in>fst ` set fs1. \<not> prefix (joinpath out c) p" by blast
  then have "filter (\<lambda>(p, n). p \<noteq> [] \<and> butlast p = joinpath out c) fs1 = []"
    by (rule children_fresh)
  then have ch: "filter (\<lambda>(p, n). p \<noteq> [] \<and> butlast p = joinpath out c) ?fs2 =
      map (\<lambda>fp. (joinpath (joinpath out c) (last fp), the (lookup fs1 fp))) fps"
    by (simp add: children_planned[OF dc cf])
  show "listdir ?fs2 (joinpath out c) = Inr (map last fps)"
    unfolding listdir_def dir ch by (simp add: comp_def joinpath_def)
  show "\<forall>fp\<in>set fps. lookup ?fs2 (joinpath (joinpath out c) (last fp)) = lookup fs1 fp"
  proof
    fix fp assume fp: "fp \<in> set fps"
    with cf files have "is_file fs1 fp" by auto
    then obtain x where x: "lookup fs1 fp = Some (File x)" by (auto simp: is_file_iff)
    have "(joinpath (joinpath out c) (last fp), the (lookup fs1 fp)) \<in> set ?fs2"
      using planned_file_member[OF cf fp] by simp
    then have "lookup ?fs2 (joinpath (joinpath out c) (last fp)) = Some (the (lookup fs1 fp))"
      by (rule lookup_member[OF d2]) (simp add: joinpath_def)
    with x show "lookup ?fs2 (joinpath (joinpath out c) (last fp)) = lookup fs1 fp" by simp
  qed
qed

lemma planned_is_dir:
  assumes d2: "distinct (map fst (fs1 @ planned_entries fs1 out cats))"
    and files: "\<forall>fp\<in>set (concat (map snd cats)). is_file fs1 fp"
    and fresh: "\<forall>c\<in>set (map fst cats). \<forall>p\<in>fst ` set fs1. \<not> prefix (joinpath out c) p"
  shows "is_dir (fs1 @ planned_entries fs1 out cats) p =
           (is_dir fs1 p \<or> p \<in> joinpath out ` set (map fst cats))"
proof (cases "p = [] \<or> p \<in> fst ` set fs1")
  case True
  then have same: "lookup (fs1 @ planned_entries fs1 out cats) p = lookup fs1 p"
  proof
    assume "p = []"
    then show ?thesis by (simp add: lookup_def)
  next
    assume "p \<in> fst ` set fs1"
    then show ?thesis by (rule lookup_append_key)
  qed
  have "p \<notin> joinpath out ` set (map fst cats)"
  proof
    assume "p \<in> joinpath out ` set (map fst cats)"
    then obtain c where c: "c \<in> set (map fst cats)" and p: "p = joinpath out c" by auto
    from p have "p \<noteq> []" by (simp add: joinpath_def)
    with True have "p \<in> fst ` set fs1" by simp
    with fresh c have "\<not> prefix (joinpath out c) p" by blast
    with p show False by simp
  qed
  with same show ?thesis by (simp add: is_dir_def)
next
  case False
  then have n1: "lookup fs1 p = None" by (simp add: lookup_None_iff)
  from False have pn: "p \<noteq> []" and pk: "p \<notin> fst ` set fs1" by simp_all
  have "is_dir (fs1 @ planned_entries fs1 out cats) p \<longleftrightarrow>
        (p, Dir) \<in> set (fs1 @ planned_entries fs1 out cats)"
    using d2 pn by (simp add: is_dir_def lookup_def del: map_of_append map_append set_append)
  also have "\<dots> \<longleftrightarrow> (p, Dir) \<in> set (planned_entries fs1 out cats)"
    using pk by force
  also have "\<dots> \<longleftrightarrow> p \<in> joinpath out ` set (map fst cats)"
    by (rule planned_dirs[OF files])
  finally show ?thesis using n1 by (simp add: is_dir_def)
qed

text \<open>
  C8, as amended. Take a run without \<open>dry_run\<close> on a file system with one entry per
  path, in which the output directory can be prepared (\<open>fs1\<close> is the state after
  that), the source directory can be listed (\<open>files\<close> are the \<open>N\<close> selected files)
  and \<open>cats\<close> are the \<open>K\<close> groups of the files. When no entry stands yet at or below
  a folder of a category, the run completes without error, with or without
  \<open>delete_originals\<close>, and afterwards:
  \<^item> the groups have \<open>K\<close> different categories, each group is not empty and holds
    exactly the files of its category, in the order of the listing, and the groups
    together hold each of the \<open>N\<close> files once;
  \<^item> the folder of each category lists exactly the names of the files of its group,
    and each of them has the content of its source;
  \<^item> the directories are those there were, and the \<open>K\<close> folders of the categories.
\<close>

theorem organize_files_grouping:
  assumes "distinct (map fst fs)"
    and "prepare_output d out0 fs = (Inr out, fs1)"
    and "files_to_organize d types0 fs1 = Inr files"
    and "group_files files [] = Inr cats"
    and "\<forall>c\<in>set (map fst cats). \<forall>p\<in>fst ` set fs. \<not> prefix (joinpath out c) p"
  shows "\<exists>fs'. organize_files d out0 types0 False del fs = (Inr (), fs') \<and>
           distinct (map fst cats) \<and>
           (\<forall>c fps. ((c, fps) \<in> set cats) =
              (fps \<noteq> [] \<and> fps = filter (\<lambda>f. extract_category (last f) = Inr c) files)) \<and>
           mset (concat (map snd cats)) = mset files \<and>
           (\<forall>(c, fps)\<in>set cats.
              listdir fs' (joinpath out c) = Inr (map last fps) \<and>
              (\<forall>fp\<in>set fps. lookup fs' (joinpath (joinpath out c) (last fp)) = lookup fs fp)) \<and>
           (\<forall>p. is_dir fs' p = (is_dir fs1 p \<or> p \<in> joinpath out ` set (map fst cats)))"
proof -
  let ?fs2 = "fs1 @ planned_entries fs1 out cats"
  note cs = copy_stage_fresh[OF assms]
  note dc = group_files_members(1)[OF assms(4)]
  have memb: "\<forall>c fps. ((c, fps) \<in> set cats) =
              (fps \<noteq> [] \<and> fps = filter (\<lambda>f. extract_category (last f) = Inr c) files)"
    using group_files_members(2)[OF assms(4)] by blast
  from group_files_mset[OF assms(4)] have ms: "mset (concat (map snd cats)) = mset files"
    by simp
  then have setc: "set (concat (map snd cats)) = set files" by (rule mset_eq_setD)
  have src: "\<And>c fps fp. (c, fps) \<in> set cats \<Longrightarrow> fp \<in> set fps \<Longrightarrow> lookup fs1 fp = lookup fs fp"
  proof -
    fix c fps fp assume "(c, fps) \<in> set cats" and "fp \<in> set fps"
    then have "fp \<in> set (concat (map snd cats))" by force
    with setc cs(6) show "lookup fs1 fp = lookup fs fp" by simp
  qed
  have folders2: "\<forall>(c, fps)\<in>set cats.
      lookup ?fs2 (joinpath out c) = Some Dir \<and>
      listdir ?fs2 (joinpath out c) = Inr (map last fps) \<and>
      (\<forall>fp\<in>set fps. lookup ?fs2 (joinpath (joinpath out c) (last fp)) = lookup fs fp)"
  proof (intro ballI, clarify, intro conjI ballI)
    fix c fps assume cf: "(c, fps) \<in> set cats"
    note pf = planned_facts[OF cs(2) cs(4) cs(5) dc cf]
    show "lookup ?fs2 (joinpath out c) = Some Dir" by (rule pf(1))
    show "listdir ?fs2 (joinpath out c) = Inr (map last fps)" by (rule pf(2))
    fix fp assume fp: "fp \<in> set fps"
    with pf(3) src[OF cf fp]
    show "lookup ?fs2 (joinpath (joinpath out c) (last fp)) = lookup fs fp" by simp
  qed
  have dirs2: "\<forall>p. is_dir ?fs2 p = (is_dir fs1 p \<or> p \<in> joinpath out ` set (map fst cats))"
    using planned_is_dir[OF cs(2) cs(4) cs(5)] by blast
  show ?thesis
  proof (cases del)
    case False
    with cs(1) have "organize_files d out0 types0 False del fs = (Inr (), ?fs2)"
      by (simp add: organize_files_def)
    with dc memb ms folders2 dirs2 show ?thesis by blast
  next
    case True
    let ?ts = "default_file_types types0"
    obtain r fs' where dn: "delete_non_foldered_files d (Some ?ts) ?fs2 = (r, fs')"
      by (cases "delete_non_foldered_files d (Some ?ts) ?fs2")
    have "lookup ?fs2 d = Some Dir" using cs(3) by (rule lookup_append_Some)
    from delete_non_foldered_files_ok[OF this, of "Some ?ts"] dn have r: "r = Inr ()" by simp
    from True cs(1) dn r have run: "organize_files d out0 types0 False del fs = (Inr (), fs')"
      by (simp add: organize_files_def)
    note lk = delete_non_foldered_files_lookup[OF dn]
    have dkey: "d = [] \<or> d \<in> fst ` set fs1"
      using cs(3) by (cases "d = []") (auto simp: lookup_def dest: map_of_SomeD intro: rev_image_eqI)
    have neq: "\<And>c. c \<in> set (map fst cats) \<Longrightarrow> joinpath out c \<noteq> d"
    proof
      fix c assume c: "c \<in> set (map fst cats)" and e: "joinpath out c = d"
      then have "d \<noteq> []" by (auto simp: joinpath_def)
      with dkey have "d \<in> fst ` set fs1" by simp
      with cs(5) c have "\<not> prefix (joinpath out c) d" by blast
      with e show False by simp
    qed
    have folders: "\<forall>(c, fps)\<in>set cats.
      listdir fs' (joinpath out c) = Inr (map last fps) \<and>
      (\<forall>fp\<in>set fps. lookup fs' (joinpath (joinpath out c) (last fp)) = lookup fs fp)"
    proof (intro ballI, clarify, intro conjI ballI)
      fix c fps assume cf: "(c, fps) \<in> set cats"
      then have ck: "c \<in> set (map fst cats)" by force
      from folders2 cf have
        d2: "lookup ?fs2 (joinpath out c) = Some Dir" and
        l2: "listdir ?fs2 (joinpath out c) = Inr (map last fps)" and
        f2: "\<forall>fp\<in>set fps. lookup ?fs2 (joinpath (joinpath out c) (last fp)) = lookup fs fp"
        by auto
      from lk[of "joinpath out c"] d2 have same: "lookup fs' (joinpath out c) = lookup ?fs2 (joinpath out c)"
        by auto
      from listdir_cong[OF same delete_non_foldered_files_children[OF dn neq[OF ck]]] l2
      show "listdir fs' (joinpath out c) = Inr (map last fps)" by simp
      fix fp assume fp: "fp \<in> set fps"
      have "joinpath (joinpath out c) (last fp) \<noteq> d @ [n]" for n
        using neq[OF ck] by (auto simp: joinpath_def)
      with lk[of "joinpath (joinpath out c) (last fp)"]
      have "lookup fs' (joinpath (joinpath out c) (last fp)) =
            lookup ?fs2 (joinpath (joinpath out c) (last fp))" by auto
      with f2 fp show "lookup fs' (joinpath (joinpath out c) (last fp)) = lookup fs fp" by simp
    qed
    have dirs: "\<forall>p. is_dir fs' p = (is_dir fs1 p \<or> p \<in> joinpath out ` set (map fst cats))"
    proof
      fix p
      from lk[of p] have "is_dir fs' p = is_dir ?fs2 p" by (auto simp: is_dir_def)
      with dirs2 show "is_dir fs' p = (is_dir fs1 p \<or> p \<in> joinpath out ` set (map fst cats))"
        by simp
    qed
    from run dc memb ms folders dirs show ?thesis by blast
  qed
qed

text \<open>
  Three files in two categories, grouped into a new output directory \<open>sorted\<close>:
  the hypotheses of C8 hold, and the two folders list their files.
\<close>

theorem organize_files_grouping_witness:
  "distinct (map fst fs_flat) \<and>
   prepare_output [''sprites''] (Some [''sorted'']) fs_flat =
     (Inr [''sorted''], fs_flat @ [([''sorted''], Dir)]) \<and>
   files_to_organize [''sprites''] None (fs_flat @ [([''sorted''], Dir)]) =
     Inr [[''sprites'', ''_FrameA.svg''], [''sprites'', ''_DoodadC.svg''],
          [''sprites'', ''_FrameB.svg'']] \<and>
   group_files [[''sprites'', ''_FrameA.svg''], [''sprites'', ''_DoodadC.svg''],
                [''sprites'', ''_FrameB.svg'']] [] =
     Inr [(''Frame'', [[''sprites'', ''_FrameA.svg''], [''sprites'', ''_FrameB.svg'']]),
          (''Doodad'', [[''sprites'', ''_DoodadC.svg'']])] \<and>
   (\<exists>fs'. organize_files [''sprites''] (Some [''sorted'']) None False True fs_flat =
            (Inr (), fs') \<and>
      listdir fs' (joinpath [''sorted''] ''Frame'') =
        Inr (map last [[''sprites'', ''_FrameA.svg''], [''sprites'', ''_FrameB.svg'']]) \<and>
      listdir fs' (joinpath [''sorted''] ''Doodad'') =
        Inr (map last [[''sprites'', ''_DoodadC.svg'']]))"
proof -
  let ?files = "[[''sprites'', ''_FrameA.svg''], [''sprites'', ''_DoodadC.svg''],
                 [''sprites'', ''_FrameB.svg'']]"
  let ?cats = "[(''Frame'', [[''sprites'', ''_FrameA.svg''], [''sprites'', ''_FrameB.svg'']]),
                (''Doodad'', [[''sprites'', ''_DoodadC.svg'']])]"
  have h1: "distinct (map fst fs_flat)" by code_simp
  have h2: "prepare_output [''sprites''] (Some [''sorted'']) fs_flat =
      (Inr [''sorted''], fs_flat @ [([''sorted''], Dir)])" by code_simp
  have h3: "files_to_organize [''sprites''] None (fs_flat @ [([''sorted''], Dir)]) = Inr ?files"
    by code_simp
  have h4: "group_files ?files [] = Inr ?cats" by code_simp
  have h5: "\<forall>c\<in>set (map fst ?cats). \<forall>p\<in>fst ` set fs_flat. \<not> prefix (joinpath [''sorted''] c) p"
    by (simp add: fs_flat_def joinpath_def)
  from organize_files_grouping[OF h1 h2 h3 h4 h5, of True] obtain fs' where
    run: "organize_files [''sprites''] (Some [''sorted'']) None False True fs_flat = (Inr (), fs')"
    and folders: "\<forall>(c, fps)\<in>set ?cats.
        listdir fs' (joinpath [''sorted''] c) = Inr (map last fps) \<and>
        (\<forall>fp\<in>set fps. lookup fs' (joinpath (joinpath [''sorted''] c) (last fp)) =
           lookup fs_flat fp)"
    by (elim exE conjE)
  have m1: "(''Frame'', [[''sprites'', ''_FrameA.svg''], [''sprites'', ''_FrameB.svg'']]) \<in> set ?cats"
    by simp
  have m2: "(''Doodad'', [[''sprites'', ''_DoodadC.svg'']]) \<in> set ?cats" by simp
  from bspec[OF folders m1] have l1: "listdir fs' (joinpath [''sorted''] ''Frame'') =
      Inr (map last [[''sprites'', ''_FrameA.svg''], [''sprites'', ''_FrameB.svg'']])"
    by (simp only: prod.case)
  from bspec[OF folders m2] have l2: "listdir fs' (joinpath [''sorted''] ''Doodad'') =
      Inr (map last [[''sprites'', ''_DoodadC.svg'']])"
    by (simp only: prod.case)
  have "\<exists>fs'. organize_files [''sprites''] (Some [''sorted'']) None False True fs_flat =
            (Inr (), fs') \<and>
      listdir fs' (joinpath [''sorted''] ''Frame'') =
        Inr (map last [[''sprites'', ''_FrameA.svg''], [''sprites'', ''_FrameB.svg'']]) \<and>
      listdir fs' (joinpath [''sorted''] ''Doodad'') =
        Inr (map last [[''sprites'', ''_DoodadC.svg'']])"
    by (rule exI[of _ fs'], intro conjI) (rule run l1 l2)+
  with h1 h2 h3 h4 show ?thesis by (intro conjI)
qed

text \<open>
  C8 as stated fails when a folder of a category is there already with a file in it
  (after an earlier run, say): one file is selected, in one category, and after the run
  the folder \<open>Frame\<close> holds two files.
\<close>

theorem organize_files_grouping_counterexample:
  "files_to_organize [''sprites''] None fs_regrouped = Inr [[''sprites'', ''_FrameA.svg'']] \<and>
   group_files [[''sprites'', ''_FrameA.svg'']] [] =
     Inr [(''Frame'', [[''sprites'', ''_FrameA.svg'']])] \<and>
   fst (organize_files [''sprites''] None None False False fs_regrouped) = Inr () \<and>
   listdir (snd (organize_files [''sprites''] None None False False fs_regrouped))
     [''sprites'', ''Frame''] = Inr [''old.svg'', ''_FrameA.svg'']"
  by code_simp

section \<open>Lemmas on the loop of rename_sprites\<close>

lemma digits_value: "foldl (\<lambda>a c. 10 * a + (of_char c - 48)) (0::nat) (dec_digits n) = n"
proof (induction n rule: dec_digits.induct)
  case (1 n)
  show ?case
  proof (cases "n < 10")
    case True
    then show ?thesis by (subst dec_digits.simps) simp
  next
    case False
    with 1 show ?thesis by (subst dec_digits.simps) (simp add: mod_mod_cancel)
  qed
qed

lemma zeros_value:
  "foldl (\<lambda>a c. 10 * a + (of_char c - 48)) (0::nat) (replicate k CHR ''0'' @ s) =
   foldl (\<lambda>a c. 10 * a + (of_char c - 48)) 0 s"
  by (induction k) simp_all

lemma format_02d_inj: "format_02d i = format_02d j \<Longrightarrow> i = j"
proof -
  assume "format_02d i = format_02d j"
  then have "foldl (\<lambda>a c. 10 * a + (of_char c - 48)) (0::nat) (format_02d i) =
             foldl (\<lambda>a c. 10 * a + (of_char c - 48)) (0::nat) (format_02d j)" by simp
  then show "i = j" by (simp only: format_02d_def zeros_value digits_value)
qed

lemma length_dec_digits:
  "length (dec_digits n) =
     (if n < 10 then 1 else if n < 100 then 2 else 2 + length (dec_digits (n div 100)))"
  by (subst dec_digits.simps, subst dec_digits.simps) (auto simp: div_mult2_eq[symmetric] div_less_iff_less_mult)

lemma length_dec_digits_pos: "0 < length (dec_digits n)"
  by (subst dec_digits.simps) simp

lemma length_format_02d: "(length (format_02d i) = 2) = (i < 100)"
  using length_dec_digits[of i] length_dec_digits_pos[of "i div 100"]
  by (auto simp: format_02d_def)

lemma new_name_inj:
  "pn @ ''_'' @ format_02d i @ ''.svg'' = pn @ ''_'' @ format_02d j @ ''.svg'' \<Longrightarrow> i = j"
  by (simp add: format_02d_inj)

lemma copy_svgs_step:
  assumes "dest_path_for out subf pn num i = Inr dest"
    and "copy2 (joinpath [folder] f) dest fs = (Inr (), fs1)"
  shows "copy_svgs folder out subf pn num i (f # rest) fs =
         copy_svgs folder out subf pn num (Suc i) rest fs1"
  using assms by (simp add: Let_def)

declare copy_svgs.simps(2) [simp del]

lemma numbered_entries_Cons:
  "numbered_entries fs folder sub pn i (f # rest) =
     (joinpath sub (pn @ ''_'' @ format_02d i @ ''.svg''), the (lookup fs (joinpath [folder] f))) #
     numbered_entries fs folder sub pn (Suc i) rest"
  by (simp add: numbered_entries_def)

lemma numbered_entries_cong:
  assumes "\<forall>f\<in>set svgs. lookup fs1 (joinpath [folder] f) = lookup fs (joinpath [folder] f)"
  shows "numbered_entries fs1 folder sub pn i svgs = numbered_entries fs folder sub pn i svgs"
  using assms
  by (induction svgs arbitrary: i) (simp_all add: numbered_entries_Cons, simp add: numbered_entries_def)

lemma copy_svgs_fresh:
  assumes "lookup fs sub = Some Dir"
    and "\<forall>f\<in>set svgs. is_file fs (joinpath [folder] f)"
    and "\<forall>k. i \<le> k \<and> k < i + length svgs \<longrightarrow>
           joinpath sub (pn @ ''_'' @ format_02d k @ ''.svg'') \<notin> fst ` set fs"
    and "num \<noteq> 1"
  shows "copy_svgs folder out (Some sub) pn num i svgs fs =
           (Inr (), fs @ numbered_entries fs folder sub pn i svgs)"
  using assms(1,2,3)
proof (induction svgs arbitrary: i fs)
  case Nil
  then show ?case by (simp add: numbered_entries_def)
next
  case (Cons f rest)
  let ?src = "joinpath [folder] f"
  let ?dest = "joinpath sub (pn @ ''_'' @ format_02d i @ ''.svg'')"
  from Cons.prems(2) have "is_file fs ?src" by simp
  then obtain c where c: "lookup fs ?src = Some (File c)" by (auto simp: is_file_iff)
  from Cons.prems(3) have fresh: "?dest \<notin> fst ` set fs" by simp
  have dne: "?dest \<noteq> []" by (simp add: joinpath_def)
  have par: "lookup fs (butlast ?dest) = Some Dir" using Cons.prems(1) by (simp add: joinpath_def)
  let ?fs1 = "fs @ [(?dest, File c)]"
  have cp: "copy2 ?src ?dest fs = (Inr (), ?fs1)" by (rule copy2_fresh[OF c fresh dne par])
  have dp: "dest_path_for out (Some sub) pn num i = Inr ?dest"
    using assms(4) by (simp add: dest_path_for_def)
  have ih: "copy_svgs folder out (Some sub) pn num (Suc i) rest ?fs1 =
      (Inr (), ?fs1 @ numbered_entries ?fs1 folder sub pn (Suc i) rest)"
  proof (rule Cons.IH)
    show "lookup ?fs1 sub = Some Dir" using Cons.prems(1) by (rule lookup_append_Some)
    show "\<forall>f\<in>set rest. is_file ?fs1 (joinpath [folder] f)"
      using Cons.prems(2) by (simp add: is_file_append)
    show "\<forall>k. Suc i \<le> k \<and> k < Suc i + length rest \<longrightarrow>
           joinpath sub (pn @ ''_'' @ format_02d k @ ''.svg'') \<notin> fst ` set ?fs1"
    proof (intro allI impI)
      fix k assume k: "Suc i \<le> k \<and> k < Suc i + length rest"
      then have "k \<noteq> i" by simp
      then have "joinpath sub (pn @ ''_'' @ format_02d k @ ''.svg'') \<noteq> ?dest"
        using new_name_inj[of pn k i] by (auto simp: joinpath_def)
      moreover from k Cons.prems(3) have
        "joinpath sub (pn @ ''_'' @ format_02d k @ ''.svg'') \<notin> fst ` set fs" by simp
      ultimately show "joinpath sub (pn @ ''_'' @ format_02d k @ ''.svg'') \<notin> fst ` set ?fs1"
        by simp
    qed
  qed
  have same: "numbered_entries ?fs1 folder sub pn (Suc i) rest =
              numbered_entries fs folder sub pn (Suc i) rest"
  proof (rule numbered_entries_cong, rule ballI)
    fix g assume "g \<in> set rest"
    with Cons.prems(2) have "is_file fs (joinpath [folder] g)" by simp
    then have "joinpath [folder] g \<in> fst ` set fs" by (rule is_file_key)
    then show "lookup ?fs1 (joinpath [folder] g) = lookup fs (joinpath [folder] g)"
      by (rule lookup_append_key)
  qed
  show ?case
    unfolding copy_svgs_step[OF dp cp] ih same numbered_entries_Cons using c by simp
qed

lemma keys_numbered_entries:
  "map fst (numbered_entries fs folder sub pn i svgs) =
     map (\<lambda>k. joinpath sub (pn @ ''_'' @ format_02d k @ ''.svg'')) [i..<i + length svgs]"
proof (induction svgs arbitrary: i)
  case Nil
  show ?case by (simp add: numbered_entries_def)
next
  case (Cons f rest)
  have "[i..<i + length (f # rest)] = i # [Suc i..<Suc i + length rest]"
    using upt_conv_Cons[of i "Suc (i + length rest)"] by (simp del: upt_Suc)
  with Cons[of "Suc i"] show ?case by (simp add: numbered_entries_Cons del: upt_Suc)
qed

lemma nth_numbered_entries:
  "k < length svgs \<Longrightarrow>
   numbered_entries fs folder sub pn i svgs ! k =
     (joinpath sub (pn @ ''_'' @ format_02d (i + k) @ ''.svg''),
      the (lookup fs (joinpath [folder] (svgs ! k))))"
  by (simp add: numbered_entries_def nth_enumerate_eq)

lemma process_folder_unfold:
  assumes "listdir fs [folder] = Inr names"
  shows "process_folder out folder fs =
     (case (if length (svg_files_of names) > 1
            then (case subfolder_of fs out (chars (extract_proper_name (codepoints folder))) of
                    Inl e \<Rightarrow> (Inl e, fs)
                  | Inr sub \<Rightarrow>
                      (case mkdir_exist_ok sub fs of
                         (Inl e, fs') \<Rightarrow> (Inl e, fs')
                       | (Inr u, fs') \<Rightarrow> (Inr (Some sub), fs')))
            else (Inr None, fs)) of
        (Inl e, fs1) \<Rightarrow> (Inl e, fs1)
      | (Inr subfolder, fs1) \<Rightarrow>
          copy_svgs folder out subfolder (chars (extract_proper_name (codepoints folder)))
            (length (svg_files_of names)) 1 (sort (svg_files_of names)) fs1)"
  by (simp add: process_folder_def Let_def assms)

lemma process_folder_zero:
  assumes "listdir fs [folder] = Inr names" and "svg_files_of names = []"
  shows "process_folder out folder fs = (Inr (), fs)"
  by (simp add: process_folder_unfold[OF assms(1)] assms(2))

lemma copy2_plain:
  assumes "lookup fs src = Some (File c)" and "\<not> is_dir fs dest" and "dest \<noteq> src"
    and "lookup fs (butlast dest) = Some Dir"
  shows "\<exists>fs'. copy2 src dest fs = (Inr (), fs') \<and>
           (\<forall>p. lookup fs' p = (if p = dest then Some (File c) else lookup fs p))"
proof (cases "lookup fs dest")
  case None
  then have k: "dest \<notin> fst ` set fs" "dest \<noteq> []" by (simp_all add: lookup_None_iff)
  from copy2_fresh[OF assms(1) k assms(4)] lookup_append_new[OF None, of "File c"]
  show ?thesis by auto
next
  case (Some v)
  with assms(2) obtain c' where c': "lookup fs dest = Some (File c')"
    by (cases v) (auto simp: is_dir_def)
  then have dne: "dest \<noteq> []" by (rule lookup_Some_not_root)
  have "copy2 src dest fs = (Inr (), AList.update dest (File c) fs)"
    unfolding copy2_def Let_def if_not_P[OF assms(2)] using assms(1,3) c' by simp
  with lookup_update[OF dne, of "File c" fs] show ?thesis by auto
qed

lemma process_folder_one:
  assumes "listdir fs [folder] = Inr names" and "svg_files_of names = [f]"
    and "lookup fs [folder, f] = Some (File c)"
    and "\<not> is_dir fs (joinpath out (chars (extract_proper_name (codepoints folder)) @ ''.svg''))"
    and "lookup fs out = Some Dir" and "out \<noteq> [folder]"
  shows "\<exists>fs'. process_folder out folder fs = (Inr (), fs') \<and>
           (\<forall>p. lookup fs' p =
              (if p = joinpath out (chars (extract_proper_name (codepoints folder)) @ ''.svg'') then Some (File c)
               else lookup fs p))"
proof -
  let ?pn = "chars (extract_proper_name (codepoints folder))"
  let ?dest = "joinpath out (?pn @ ''.svg'')"
  have src: "lookup fs (joinpath [folder] f) = Some (File c)"
    using assms(3) by (simp add: joinpath_def)
  have ne: "?dest \<noteq> joinpath [folder] f" using assms(6) by (auto simp: joinpath_def)
  have par: "lookup fs (butlast ?dest) = Some Dir" using assms(5) by (simp add: joinpath_def)
  from copy2_plain[OF src assms(4) ne par] obtain fs' where
    cp: "copy2 (joinpath [folder] f) ?dest fs = (Inr (), fs')" and
    eff: "\<forall>p. lookup fs' p = (if p = ?dest then Some (File c) else lookup fs p)" by blast
  have dp: "dest_path_for out None ?pn (Suc 0) (Suc 0) = Inr ?dest"
    by (simp add: dest_path_for_def)
  have "process_folder out folder fs = copy_svgs folder out None ?pn (Suc 0) (Suc 0) [f] fs"
    by (simp add: process_folder_unfold[OF assms(1)] assms(2))
  also have "\<dots> = (Inr (), fs')" by (simp add: copy_svgs_step[OF dp cp])
  finally show ?thesis using eff by blast
qed

lemma process_folder_many:
  assumes "distinct (map fst fs)"
    and "listdir fs [folder] = Inr names"
    and "1 < length (svg_files_of names)"
    and "\<forall>f\<in>set (svg_files_of names). is_file fs [folder, f]"
    and "lookup fs out = Some Dir"
    and "\<forall>p\<in>fst ` set fs. \<not> prefix (joinpath out (chars (extract_proper_name (codepoints folder)))) p"
    and "chars (extract_proper_name (codepoints folder)) \<noteq> ''.''"
    and "chars (extract_proper_name (codepoints folder)) \<noteq> ''..''"
  shows "process_folder out folder fs =
           (Inr (),
            fs @ (joinpath out (chars (extract_proper_name (codepoints folder))), Dir) #
              numbered_entries fs folder (joinpath out (chars (extract_proper_name (codepoints folder))))
                (chars (extract_proper_name (codepoints folder))) 1 (sort (svg_files_of names)))"
    and "distinct (map fst
           (fs @ (joinpath out (chars (extract_proper_name (codepoints folder))), Dir) #
              numbered_entries fs folder (joinpath out (chars (extract_proper_name (codepoints folder))))
                (chars (extract_proper_name (codepoints folder))) 1 (sort (svg_files_of names))))"
proof -
  let ?pn = "chars (extract_proper_name (codepoints folder))"
  let ?sub = "joinpath out ?pn"
  let ?svgs = "sort (svg_files_of names)"
  let ?fs0 = "fs @ [(?sub, Dir)]"
  have snew: "?sub \<notin> fst ` set fs" using assms(6) by auto
  have sne: "?sub \<noteq> []" by (simp add: joinpath_def)
  have par: "lookup fs (butlast ?sub) = Some Dir" using assms(5) by (simp add: joinpath_def)
  have mk: "mkdir_exist_ok ?sub fs = (Inr (), ?fs0)" by (rule mkdir_fresh[OF snew sne par])
  have files: "\<forall>f\<in>set ?svgs. is_file fs (joinpath [folder] f)"
    using assms(4) by (simp add: joinpath_def)
  have fresh: "\<And>k. joinpath ?sub (?pn @ ''_'' @ format_02d k @ ''.svg'') \<notin> fst ` set ?fs0"
  proof -
    fix k
    have "prefix ?sub (joinpath ?sub (?pn @ ''_'' @ format_02d k @ ''.svg''))"
      by (simp add: joinpath_def)
    with assms(6) have "joinpath ?sub (?pn @ ''_'' @ format_02d k @ ''.svg'') \<notin> fst ` set fs"
      by blast
    moreover have "joinpath ?sub (?pn @ ''_'' @ format_02d k @ ''.svg'') \<noteq> ?sub"
      by (simp add: joinpath_def)
    ultimately show "joinpath ?sub (?pn @ ''_'' @ format_02d k @ ''.svg'') \<notin> fst ` set ?fs0"
      by simp
  qed
  have num: "length (svg_files_of names) \<noteq> 1" using assms(3) by simp
  have cp: "copy_svgs folder out (Some ?sub) ?pn (length (svg_files_of names)) (Suc 0) ?svgs ?fs0 =
      (Inr (), ?fs0 @ numbered_entries ?fs0 folder ?sub ?pn (Suc 0) ?svgs)"
  proof (rule copy_svgs_fresh[OF _ _ _ num])
    show "lookup ?fs0 ?sub = Some Dir"
      using snew sne by (simp add: lookup_append_new lookup_None_iff)
    show "\<forall>f\<in>set ?svgs. is_file ?fs0 (joinpath [folder] f)"
      using files by (simp add: is_file_append)
    show "\<forall>k. Suc 0 \<le> k \<and> k < Suc 0 + length ?svgs \<longrightarrow>
           joinpath ?sub (?pn @ ''_'' @ format_02d k @ ''.svg'') \<notin> fst ` set ?fs0"
      using fresh by blast
  qed
  have same: "numbered_entries ?fs0 folder ?sub ?pn (Suc 0) ?svgs =
              numbered_entries fs folder ?sub ?pn (Suc 0) ?svgs"
  proof (rule numbered_entries_cong, rule ballI)
    fix g assume "g \<in> set ?svgs"
    with files have "is_file fs (joinpath [folder] g)" by blast
    then have "joinpath [folder] g \<in> fst ` set fs" by (rule is_file_key)
    then show "lookup ?fs0 (joinpath [folder] g) = lookup fs (joinpath [folder] g)"
      by (rule lookup_append_key)
  qed
  show "process_folder out folder fs =
      (Inr (), fs @ (?sub, Dir) # numbered_entries fs folder ?sub ?pn 1 ?svgs)"
    using assms(3,7,8)
    by (simp add: process_folder_unfold[OF assms(2)] subfolder_of_def mk cp same)
  have inj: "inj_on (\<lambda>k. joinpath ?sub (?pn @ ''_'' @ format_02d k @ ''.svg'')) A" for A
    by (rule inj_onI) (simp add: joinpath_def format_02d_inj)
  have dk: "distinct (map fst (numbered_entries fs folder ?sub ?pn 1 ?svgs))"
    unfolding keys_numbered_entries distinct_map
  proof
    show "distinct [1..<1 + length ?svgs]" by simp
    show "inj_on (\<lambda>k. joinpath ?sub (?pn @ ''_'' @ format_02d k @ ''.svg''))
            (set [1..<1 + length ?svgs])" by (rule inj)
  qed
  have disj: "set (map fst ?fs0) \<inter> set (map fst (numbered_entries fs folder ?sub ?pn 1 ?svgs)) = {}"
  proof (rule ccontr)
    assume "set (map fst ?fs0) \<inter> set (map fst (numbered_entries fs folder ?sub ?pn 1 ?svgs)) \<noteq> {}"
    then obtain p where p0: "p \<in> set (map fst ?fs0)"
      and p1: "p \<in> set (map fst (numbered_entries fs folder ?sub ?pn 1 ?svgs))" by blast
    from p1 obtain k where "p = joinpath ?sub (?pn @ ''_'' @ format_02d k @ ''.svg'')"
      unfolding keys_numbered_entries by (auto simp del: upt_Suc)
    with fresh[of k] have "p \<notin> fst ` set ?fs0" by simp
    with p0 show False by simp
  qed
  have d0: "distinct (map fst ?fs0)" using assms(1) snew by simp
  have "distinct (map fst ?fs0 @ map fst (numbered_entries fs folder ?sub ?pn 1 ?svgs))"
    by (subst distinct_append) (rule conjI[OF d0 conjI[OF dk disj]])
  moreover have "map fst (fs @ (?sub, Dir) # numbered_entries fs folder ?sub ?pn 1 ?svgs) =
      map fst ?fs0 @ map fst (numbered_entries fs folder ?sub ?pn 1 ?svgs)" by simp
  ultimately show
    "distinct (map fst (fs @ (?sub, Dir) # numbered_entries fs folder ?sub ?pn 1 ?svgs))"
    by (simp only:)
qed

lemma lookup_append_other:
  "p \<notin> fst ` set more \<Longrightarrow> lookup (fs @ more) p = lookup fs p"
proof -
  assume "p \<notin> fst ` set more"
  then have "map_of more p = None" by (simp add: map_of_eq_None_iff)
  then show ?thesis by (simp add: lookup_def map_add_def split: option.splits)
qed

lemma children_numbered_entries:
  "filter (\<lambda>(p, n). p \<noteq> [] \<and> butlast p = sub) (numbered_entries fs folder sub pn i svgs) =
   numbered_entries fs folder sub pn i svgs"
  by (induction svgs arbitrary: i)
    (simp_all add: numbered_entries_Cons joinpath_def, simp add: numbered_entries_def)

lemma process_folder_many_facts:
  assumes "distinct (map fst fs)"
    and "listdir fs [folder] = Inr names"
    and "1 < length (svg_files_of names)"
    and "\<forall>f\<in>set (svg_files_of names). is_file fs [folder, f]"
    and "lookup fs out = Some Dir"
    and "\<forall>p\<in>fst ` set fs. \<not> prefix (joinpath out (chars (extract_proper_name (codepoints folder)))) p"
    and "chars (extract_proper_name (codepoints folder)) \<noteq> ''.''"
    and "chars (extract_proper_name (codepoints folder)) \<noteq> ''..''"
  shows "fst (process_folder out folder fs) = Inr ()"
    and "is_dir (snd (process_folder out folder fs)) (joinpath out (chars (extract_proper_name (codepoints folder))))"
    and "listdir (snd (process_folder out folder fs)) (joinpath out (chars (extract_proper_name (codepoints folder)))) =
           Inr (map (\<lambda>i. chars (extract_proper_name (codepoints folder)) @ ''_'' @ format_02d i @ ''.svg'')
                  [1..<Suc (length (svg_files_of names))])"
    and "\<forall>k<length (svg_files_of names).
           lookup (snd (process_folder out folder fs))
             (joinpath (joinpath out (chars (extract_proper_name (codepoints folder))))
                (chars (extract_proper_name (codepoints folder)) @ ''_'' @ format_02d (Suc k) @ ''.svg'')) =
           lookup fs [folder, sort (svg_files_of names) ! k]"
    and "\<forall>p. \<not> prefix (joinpath out (chars (extract_proper_name (codepoints folder)))) p \<longrightarrow>
           lookup (snd (process_folder out folder fs)) p = lookup fs p"
proof -
  let ?pn = "chars (extract_proper_name (codepoints folder))"
  let ?sub = "joinpath out ?pn"
  let ?svgs = "sort (svg_files_of names)"
  let ?ne = "numbered_entries fs folder ?sub ?pn 1 ?svgs"
  let ?fs' = "fs @ (?sub, Dir) # ?ne"
  note pf = process_folder_many[OF assms]
  have len: "length ?svgs = length (svg_files_of names)" by simp
  have sne: "?sub \<noteq> []" by (simp add: joinpath_def)
  show "fst (process_folder out folder fs) = Inr ()" by (simp add: pf(1))
  have dir: "lookup ?fs' ?sub = Some Dir"
    by (rule lookup_member[OF pf(2) _ sne]) simp
  then show "is_dir (snd (process_folder out folder fs)) ?sub"
    by (simp add: pf(1) is_dir_def)
  have "filter (\<lambda>(p, n). p \<noteq> [] \<and> butlast p = ?sub) fs = []"
    by (rule children_fresh[OF assms(6)])
  moreover have "butlast ?sub \<noteq> ?sub" by (simp add: joinpath_def)
  ultimately have ch: "filter (\<lambda>(p, n). p \<noteq> [] \<and> butlast p = ?sub) ?fs' = ?ne"
    by (simp add: children_numbered_entries)
  have "map (last \<circ> fst) ?ne = map last (map fst ?ne)" by simp
  also have "\<dots> = map (\<lambda>i. ?pn @ ''_'' @ format_02d i @ ''.svg'') [1..<1 + length ?svgs]"
    unfolding keys_numbered_entries by (simp add: comp_def joinpath_def del: upt_Suc)
  finally have names': "map (last \<circ> fst) ?ne =
      map (\<lambda>i. ?pn @ ''_'' @ format_02d i @ ''.svg'') [1..<Suc (length (svg_files_of names))]"
    by (simp del: upt_Suc)
  show "listdir (snd (process_folder out folder fs)) ?sub =
          Inr (map (\<lambda>i. ?pn @ ''_'' @ format_02d i @ ''.svg'')
                 [1..<Suc (length (svg_files_of names))])"
    unfolding pf(1) snd_conv listdir_def dir ch names' by simp
  show "\<forall>k<length (svg_files_of names).
          lookup (snd (process_folder out folder fs))
            (joinpath ?sub (?pn @ ''_'' @ format_02d (Suc k) @ ''.svg'')) =
          lookup fs [folder, ?svgs ! k]"
  proof (intro allI impI)
    fix k assume k: "k < length (svg_files_of names)"
    then have kl: "k < length ?svgs" by simp
    have lne: "length ?ne = length ?svgs" by (simp add: numbered_entries_def)
    from kl have "?svgs ! k \<in> set ?svgs" by (rule nth_mem)
    then have "?svgs ! k \<in> set (svg_files_of names)" by simp
    with assms(4) have "is_file fs [folder, ?svgs ! k]" by blast
    then obtain c where c: "lookup fs [folder, ?svgs ! k] = Some (File c)"
      by (auto simp: is_file_iff)
    have "?ne ! k = (joinpath ?sub (?pn @ ''_'' @ format_02d (1 + k) @ ''.svg''),
                     the (lookup fs (joinpath [folder] (?svgs ! k))))"
      by (rule nth_numbered_entries[OF kl])
    moreover have "?ne ! k \<in> set ?ne" using kl lne by (simp only: nth_mem)
    ultimately have "(joinpath ?sub (?pn @ ''_'' @ format_02d (Suc k) @ ''.svg''), File c) \<in> set ?fs'"
      using c by (simp add: joinpath_def)
    from lookup_member[OF pf(2) this] c
    show "lookup (snd (process_folder out folder fs))
            (joinpath ?sub (?pn @ ''_'' @ format_02d (Suc k) @ ''.svg'')) =
          lookup fs [folder, ?svgs ! k]"
      by (simp add: pf(1) joinpath_def)
  qed
  show "\<forall>p. \<not> prefix ?sub p \<longrightarrow> lookup (snd (process_folder out folder fs)) p = lookup fs p"
  proof (intro allI impI)
    fix p assume np: "\<not> prefix ?sub p"
    have "p \<notin> fst ` set ((?sub, Dir) # ?ne)"
    proof
      assume "p \<in> fst ` set ((?sub, Dir) # ?ne)"
      then have "p = ?sub \<or> p \<in> set (map fst ?ne)" by auto
      then have "prefix ?sub p"
        unfolding keys_numbered_entries by (auto simp: joinpath_def simp del: upt_Suc)
      with np show False by contradiction
    qed
    then show "lookup (snd (process_folder out folder fs)) p = lookup fs p"
      unfolding pf(1) snd_conv by (rule lookup_append_other)
  qed
qed

section \<open>Properties of the fan-out of rename_sprites\<close>

text \<open>
  C7, as amended. Take one sprite folder \<open>folder\<close> of a file system with one entry per
  path, whose listing is \<open>names\<close>, and an output directory \<open>out\<close> that is a directory
  and is not the folder itself; \<open>svg_files\<close> are the names of the listing that end in
  \<open>.svg\<close> once lower-cased, and \<open>proper_name\<close> is the name extracted from the folder.
  \<^item> With no such name, the folder is skipped: no error, and the file system is
    unchanged.
  \<^item> With exactly one, a regular file, and no directory standing at
    \<open>out/proper_name.svg\<close>: no error, that path holds the content of the file, and
    every other path is as before.
  \<^item> With \<open>M > 1\<close> of them, all regular files, a proper name that is neither \<open>.\<close>
    nor \<open>..\<close>, and no entry yet at or below \<open>out/proper_name\<close>: no error, that
    subfolder is a directory and lists exactly the \<open>M\<close> names \<open>proper_name_NN.svg\<close>
    for the indices 1 to \<open>M\<close>, the file of index \<open>k + 1\<close> has the content of the file
    at position \<open>k\<close> of the sorted names, and every path outside the subfolder is as
    before.
  \<^item> The index \<open>NN\<close> is written with two digits exactly when it is below 100.
\<close>

theorem process_folder_fan_out:
  assumes "distinct (map fst fs)"
    and "listdir fs [folder] = Inr names"
    and "lookup fs out = Some Dir"
    and "out \<noteq> [folder]"
    and "svg_files = svg_files_of names"
    and "proper_name = chars (extract_proper_name (codepoints folder))"
  shows "(svg_files = [] \<longrightarrow> process_folder out folder fs = (Inr (), fs)) \<and>
         (\<forall>f c. svg_files = [f] \<and> lookup fs [folder, f] = Some (File c) \<and>
            \<not> is_dir fs (joinpath out (proper_name @ ''.svg'')) \<longrightarrow>
            (\<exists>fs'. process_folder out folder fs = (Inr (), fs') \<and>
               (\<forall>p. lookup fs' p =
                  (if p = joinpath out (proper_name @ ''.svg'') then Some (File c)
                   else lookup fs p)))) \<and>
         (1 < length svg_files \<and> (\<forall>f\<in>set svg_files. is_file fs [folder, f]) \<and>
            proper_name \<noteq> ''.'' \<and> proper_name \<noteq> ''..'' \<and>
            (\<forall>p\<in>fst ` set fs. \<not> prefix (joinpath out proper_name) p) \<longrightarrow>
            (\<exists>fs'. process_folder out folder fs = (Inr (), fs') \<and>
               is_dir fs' (joinpath out proper_name) \<and>
               listdir fs' (joinpath out proper_name) =
                 Inr (map (\<lambda>i. proper_name @ ''_'' @ format_02d i @ ''.svg'')
                        [1..<Suc (length svg_files)]) \<and>
               (\<forall>k<length svg_files.
                  lookup fs' (joinpath (joinpath out proper_name)
                                (proper_name @ ''_'' @ format_02d (Suc k) @ ''.svg'')) =
                  lookup fs [folder, sort svg_files ! k]) \<and>
               (\<forall>p. \<not> prefix (joinpath out proper_name) p \<longrightarrow> lookup fs' p = lookup fs p))) \<and>
         (\<forall>i. (length (format_02d i) = 2) = (i < 100))"
proof (intro conjI allI impI; (elim conjE)?)
  assume "svg_files = []"
  with assms(5) show "process_folder out folder fs = (Inr (), fs)"
    using process_folder_zero[OF assms(2)] by simp
next
  fix f c
  assume "svg_files = [f]" and "lookup fs [folder, f] = Some (File c)"
    and "\<not> is_dir fs (joinpath out (proper_name @ ''.svg''))"
  then show "\<exists>fs'. process_folder out folder fs = (Inr (), fs') \<and>
               (\<forall>p. lookup fs' p =
                  (if p = joinpath out (proper_name @ ''.svg'') then Some (File c)
                   else lookup fs p))"
    unfolding assms(5,6) using process_folder_one[OF assms(2) _ _ _ assms(3,4)] by simp
next
  assume many: "1 < length svg_files" "\<forall>f\<in>set svg_files. is_file fs [folder, f]"
    "proper_name \<noteq> ''.''" "proper_name \<noteq> ''..''"
    "\<forall>p\<in>fst ` set fs. \<not> prefix (joinpath out proper_name) p"
  note facts = process_folder_many_facts[OF assms(1,2) many(1,2)[unfolded assms(5)] assms(3)
      many(5)[unfolded assms(6)] many(3,4)[unfolded assms(6)]]
  let ?fs' = "snd (process_folder out folder fs)"
  have run: "process_folder out folder fs = (Inr (), ?fs')"
    using facts(1) by (cases "process_folder out folder fs") simp
  show "\<exists>fs'. process_folder out folder fs = (Inr (), fs') \<and>
               is_dir fs' (joinpath out proper_name) \<and>
               listdir fs' (joinpath out proper_name) =
                 Inr (map (\<lambda>i. proper_name @ ''_'' @ format_02d i @ ''.svg'')
                        [1..<Suc (length svg_files)]) \<and>
               (\<forall>k<length svg_files.
                  lookup fs' (joinpath (joinpath out proper_name)
                                (proper_name @ ''_'' @ format_02d (Suc k) @ ''.svg'')) =
                  lookup fs [folder, sort svg_files ! k]) \<and>
               (\<forall>p. \<not> prefix (joinpath out proper_name) p \<longrightarrow> lookup fs' p = lookup fs p)"
    unfolding assms(5,6)
    by (rule exI[of _ ?fs'], intro conjI) (rule run facts(2) facts(3) facts(4) facts(5))+
next
  fix i
  show "(length (format_02d i) = 2) = (i < 100)" by (rule length_format_02d)
qed

text \<open>
  The three cases of C7 on one file system: the folder \<open>empty\<close> has no frame and is
  skipped, \<open>DefineSprite_2_a_Waist\<close> has one frame, copied to \<open>Waist.svg\<close>, and
  \<open>DefineSprite_3_Torso\<close> has three, numbered in the sorted order of their names.
\<close>

theorem process_folder_fan_out_witness:
  "distinct (map fst fs_sprites) \<and>
   listdir fs_sprites [''empty''] = Inr [''a.png''] \<and>
   process_folder [''sprites_done''] ''empty'' fs_sprites = (Inr (), fs_sprites) \<and>
   listdir fs_sprites [''DefineSprite_2_a_Waist''] = Inr [''1.svg''] \<and>
   (\<exists>fs'. process_folder [''sprites_done''] ''DefineSprite_2_a_Waist'' fs_sprites = (Inr (), fs') \<and>
      (\<forall>p. lookup fs' p =
         (if p = joinpath [''sprites_done''] (''Waist'' @ ''.svg'') then Some (File ''one'')
          else lookup fs_sprites p))) \<and>
   listdir fs_sprites [''DefineSprite_3_Torso''] = Inr [''2.svg'', ''10.SVG'', ''1.svg''] \<and>
   sort [''2.svg'', ''10.SVG'', ''1.svg''] = [''1.svg'', ''10.SVG'', ''2.svg''] \<and>
   (\<exists>fs'. process_folder [''sprites_done''] ''DefineSprite_3_Torso'' fs_sprites = (Inr (), fs') \<and>
      is_dir fs' [''sprites_done'', ''Torso''] \<and>
      listdir fs' [''sprites_done'', ''Torso''] =
        Inr [''Torso_01.svg'', ''Torso_02.svg'', ''Torso_03.svg''] \<and>
      lookup fs' [''sprites_done'', ''Torso'', ''Torso_01.svg''] = Some (File ''x1'') \<and>
      lookup fs' [''sprites_done'', ''Torso'', ''Torso_02.svg''] = Some (File ''x10'') \<and>
      lookup fs' [''sprites_done'', ''Torso'', ''Torso_03.svg''] = Some (File ''x2''))"
proof -
  have d: "distinct (map fst fs_sprites)" by code_simp
  have out: "lookup fs_sprites [''sprites_done''] = Some Dir" by code_simp
  have l0: "listdir fs_sprites [''empty''] = Inr [''a.png'']" by code_simp
  have s0: "[] = svg_files_of [''a.png'']" by code_simp
  have n0: "[''sprites_done''] \<noteq> [''empty'']" by simp
  have l1: "listdir fs_sprites [''DefineSprite_2_a_Waist''] = Inr [''1.svg'']" by code_simp
  have s1: "[''1.svg''] = svg_files_of [''1.svg'']" by code_simp
  have p1: "''Waist'' = chars (extract_proper_name (codepoints ''DefineSprite_2_a_Waist''))"
    by code_simp
  have n1: "[''sprites_done''] \<noteq> [''DefineSprite_2_a_Waist'']" by simp
  have c1: "lookup fs_sprites [''DefineSprite_2_a_Waist'', ''1.svg''] = Some (File ''one'')"
    by code_simp
  have f1: "\<not> is_dir fs_sprites (joinpath [''sprites_done''] (''Waist'' @ ''.svg''))"
    by code_simp
  have l3: "listdir fs_sprites [''DefineSprite_3_Torso''] = Inr [''2.svg'', ''10.SVG'', ''1.svg'']"
    by code_simp
  have s3: "[''2.svg'', ''10.SVG'', ''1.svg''] = svg_files_of [''2.svg'', ''10.SVG'', ''1.svg'']"
    by code_simp
  have p3: "''Torso'' = chars (extract_proper_name (codepoints ''DefineSprite_3_Torso''))"
    by code_simp
  have t3: "''Torso'' \<noteq> ''.''" "''Torso'' \<noteq> ''..''" by simp_all
  have n3: "[''sprites_done''] \<noteq> [''DefineSprite_3_Torso'']" by simp
  have m3: "1 < length [''2.svg'', ''10.SVG'', ''1.svg'']" by simp
  have i3: "\<forall>f\<in>set [''2.svg'', ''10.SVG'', ''1.svg''].
              is_file fs_sprites [''DefineSprite_3_Torso'', f]"
    by code_simp
  have r3: "\<forall>p\<in>fst ` set fs_sprites. \<not> prefix (joinpath [''sprites_done''] ''Torso'') p"
    by code_simp
  have srt: "sort [''2.svg'', ''10.SVG'', ''1.svg''] = [''1.svg'', ''10.SVG'', ''2.svg'']"
    by code_simp
  have x1: "lookup fs_sprites [''DefineSprite_3_Torso'', ''1.svg''] = Some (File ''x1'')"
    by code_simp
  have x10: "lookup fs_sprites [''DefineSprite_3_Torso'', ''10.SVG''] = Some (File ''x10'')"
    by code_simp
  have x2: "lookup fs_sprites [''DefineSprite_3_Torso'', ''2.svg''] = Some (File ''x2'')"
    by code_simp
  have names: "map (\<lambda>i. ''Torso'' @ ''_'' @ format_02d i @ ''.svg'') [1..<Suc (length [''2.svg'', ''10.SVG'', ''1.svg''])]
      = [''Torso_01.svg'', ''Torso_02.svg'', ''Torso_03.svg'']"
    by code_simp
  have j: "joinpath [''sprites_done''] ''Torso'' = [''sprites_done'', ''Torso'']"
    by (simp add: joinpath_def)
  have k1: "joinpath [''sprites_done'', ''Torso''] (''Torso'' @ ''_'' @ format_02d (Suc 0) @ ''.svg'')
      = [''sprites_done'', ''Torso'', ''Torso_01.svg'']" by code_simp
  have k2: "joinpath [''sprites_done'', ''Torso''] (''Torso'' @ ''_'' @ format_02d (Suc 1) @ ''.svg'')
      = [''sprites_done'', ''Torso'', ''Torso_02.svg'']" by code_simp
  have k3: "joinpath [''sprites_done'', ''Torso''] (''Torso'' @ ''_'' @ format_02d (Suc 2) @ ''.svg'')
      = [''sprites_done'', ''Torso'', ''Torso_03.svg'']" by code_simp
  have zero: "process_folder [''sprites_done''] ''empty'' fs_sprites = (Inr (), fs_sprites)"
    using process_folder_fan_out[OF d l0 out n0 s0 refl, THEN conjunct1] by (rule mp) (rule refl)
  have one: "\<exists>fs'. process_folder [''sprites_done''] ''DefineSprite_2_a_Waist'' fs_sprites = (Inr (), fs') \<and>
      (\<forall>p. lookup fs' p =
         (if p = joinpath [''sprites_done''] (''Waist'' @ ''.svg'') then Some (File ''one'')
          else lookup fs_sprites p))"
    using process_folder_fan_out[OF d l1 out n1 s1 p1, THEN conjunct2, THEN conjunct1,
        rule_format, OF conjI[OF refl conjI[OF c1 f1]]] .
  from process_folder_fan_out[OF d l3 out n3 s3 p3, THEN conjunct2, THEN conjunct2,
        THEN conjunct1, rule_format,
        OF conjI[OF m3 conjI[OF i3 conjI[OF t3(1) conjI[OF t3(2) r3]]]]]
  obtain fs' where run: "process_folder [''sprites_done''] ''DefineSprite_3_Torso'' fs_sprites = (Inr (), fs')"
    and dir: "is_dir fs' (joinpath [''sprites_done''] ''Torso'')"
    and ls: "listdir fs' (joinpath [''sprites_done''] ''Torso'') =
        Inr (map (\<lambda>i. ''Torso'' @ ''_'' @ format_02d i @ ''.svg'')
               [1..<Suc (length [''2.svg'', ''10.SVG'', ''1.svg''])])"
    and cp: "\<And>k. k < length [''2.svg'', ''10.SVG'', ''1.svg''] \<Longrightarrow>
        lookup fs' (joinpath (joinpath [''sprites_done''] ''Torso'')
                      (''Torso'' @ ''_'' @ format_02d (Suc k) @ ''.svg'')) =
        lookup fs_sprites [''DefineSprite_3_Torso'', sort [''2.svg'', ''10.SVG'', ''1.svg''] ! k]"
    by blast
  have e1: "lookup fs' [''sprites_done'', ''Torso'', ''Torso_01.svg''] = Some (File ''x1'')"
    using cp[of 0] unfolding j k1 srt by (simp add: x1)
  have e2: "lookup fs' [''sprites_done'', ''Torso'', ''Torso_02.svg''] = Some (File ''x10'')"
    using cp[of 1] unfolding j k2 srt by (simp add: x10)
  have e3: "lookup fs' [''sprites_done'', ''Torso'', ''Torso_03.svg''] = Some (File ''x2'')"
    using cp[of 2] unfolding j k3 srt by (simp add: x2)
  have many: "\<exists>fs'. process_folder [''sprites_done''] ''DefineSprite_3_Torso'' fs_sprites = (Inr (), fs') \<and>
      is_dir fs' [''sprites_done'', ''Torso''] \<and>
      listdir fs' [''sprites_done'', ''Torso''] =
        Inr [''Torso_01.svg'', ''Torso_02.svg'', ''Torso_03.svg''] \<and>
      lookup fs' [''sprites_done'', ''Torso'', ''Torso_01.svg''] = Some (File ''x1'') \<and>
      lookup fs' [''sprites_done'', ''Torso'', ''Torso_02.svg''] = Some (File ''x10'') \<and>
      lookup fs' [''sprites_done'', ''Torso'', ''Torso_03.svg''] = Some (File ''x2'')"
    by (rule exI[of _ fs'], intro conjI)
       (rule run dir[unfolded j] ls[unfolded j names] e1 e2 e3)+
  show ?thesis
    by (intro conjI) (rule d l0 zero l1 one l3 srt many)+
qed

text \<open>The folder with a hundred frames.\<close>

lemma hundred_names_distinct: "distinct hundred_names"
proof -
  have "inj_on (\<lambda>i. replicate i CHR ''a'' @ ''.svg'') A" for A :: "nat set"
  proof (rule inj_onI)
    fix i j :: nat
    assume "replicate i CHR ''a'' @ ''.svg'' = replicate j CHR ''a'' @ ''.svg''"
    then have "replicate i CHR ''a'' = replicate j CHR ''a''" by simp
    then have "length (replicate i CHR ''a'') = length (replicate j CHR ''a'')" by (rule arg_cong)
    then show "i = j" by simp
  qed
  then show ?thesis unfolding hundred_names_def distinct_map by simp
qed

lemma hundred_names_length: "length hundred_names = 100"
  by (simp add: hundred_names_def)

lemma hundred_names_svg: "svg_files_of hundred_names = hundred_names"
proof -
  have l: "str_lower ''.svg'' = ''.svg''" by code_simp
  have a: "lower_char CHR ''a'' = CHR ''a''" by code_simp
  have "suffix ''.svg'' (str_lower (replicate i CHR ''a'' @ ''.svg''))" for i
  proof -
    have "str_lower (replicate i CHR ''a'' @ ''.svg'') = replicate i CHR ''a'' @ str_lower ''.svg''"
      unfolding str_lower_def map_append map_replicate a ..
    then show ?thesis unfolding l by (simp only: suffix_def) blast
  qed
  then have "\<forall>n\<in>set hundred_names. suffix ''.svg'' (str_lower n)"
    unfolding hundred_names_def by auto
  then show ?thesis unfolding svg_files_of_def by (simp only: filter_True)
qed

lemma fs_hundred_keys:
  "map fst fs_hundred = [''sprites_done''] # [''a_X''] # map (\<lambda>n. [''a_X'', n]) hundred_names"
  by (simp add: fs_hundred_def comp_def)

lemma fs_hundred_distinct: "distinct (map fst fs_hundred)"
proof -
  have "inj_on (\<lambda>n. [''a_X'', n]) A" for A by (rule inj_onI) simp
  then have "distinct (map (\<lambda>n. [''a_X'', n]) hundred_names)"
    using hundred_names_distinct by (simp add: distinct_map)
  then show ?thesis unfolding fs_hundred_keys by auto
qed

lemma fs_hundred_listdir: "listdir fs_hundred [''a_X''] = Inr hundred_names"
proof -
  have d: "lookup fs_hundred [''a_X''] = Some Dir" by (simp add: fs_hundred_def lookup_def)
  have "filter (\<lambda>(p, n). p \<noteq> [] \<and> butlast p = [''a_X''])
          (map (\<lambda>n. ([''a_X'', n], File n)) hundred_names) =
        map (\<lambda>n. ([''a_X'', n], File n)) hundred_names"
    by (induction hundred_names) simp_all
  then have "filter (\<lambda>(p, n). p \<noteq> [] \<and> butlast p = [''a_X'']) fs_hundred =
        map (\<lambda>n. ([''a_X'', n], File n)) hundred_names"
    by (simp add: fs_hundred_def)
  then show ?thesis unfolding listdir_def d by (simp add: comp_def)
qed

lemma fs_hundred_files: "\<forall>f\<in>set (svg_files_of hundred_names). is_file fs_hundred [''a_X'', f]"
proof
  fix f assume "f \<in> set (svg_files_of hundred_names)"
  then have "f \<in> set hundred_names" by (simp only: hundred_names_svg)
  then have "([''a_X'', f], File f) \<in> set fs_hundred" by (simp add: fs_hundred_def)
  from lookup_member[OF fs_hundred_distinct this] show "is_file fs_hundred [''a_X'', f]"
    by (simp add: is_file_def)
qed

lemma proper_name_a_X: "chars (extract_proper_name (codepoints ''a_X'')) = ''X''"
  by code_simp

lemma fs_hundred_fresh:
  "\<forall>p\<in>fst ` set fs_hundred.
     \<not> prefix (joinpath [''sprites_done''] (chars (extract_proper_name (codepoints ''a_X'')))) p"
proof -
  note pn = proper_name_a_X
  have "\<forall>p\<in>set (map fst fs_hundred). \<not> prefix [''sprites_done'', ''X''] p"
    unfolding fs_hundred_keys by auto
  then show ?thesis by (simp add: pn joinpath_def)
qed

text \<open>
  C7 as stated fails in these ways, one for each condition of the amended statement.
  \<^item> A folder with a hundred frames: the run completes and the last frame is written to
    \<open>X_100.svg\<close>, with an index of three digits.
  \<^item> The folder \<open>a_..\<close> with two frames has the proper name \<open>..\<close>: no subfolder is
    made, and the two frames are written beside the output directory. Those of the
    folder \<open>a_.\<close>, with the proper name \<open>.\<close>, are written into the output directory.
  \<^item> The folder \<open>a_Old\<close> with two frames, when the subfolder \<open>Old\<close> holds a file
    already: afterwards it holds three files.
  \<^item> The folder \<open>a_One\<close> with one frame, when a directory \<open>One.svg\<close> stands in the
    output directory: the frame is written into that directory under its old name.
  \<^item> The folders \<open>a_Dir\<close> and \<open>a_Two\<close>, where a directory has a name that ends in
    \<open>.svg\<close>: it counts as a frame, and the copy of it raises IsADirectoryError.
\<close>

theorem process_folder_fan_out_counterexample:
  "listdir fs_hundred [''a_X''] = Inr hundred_names \<and>
   length (svg_files_of hundred_names) = 100 \<and>
   fst (process_folder [''sprites_done''] ''a_X'' fs_hundred) = Inr () \<and>
   is_file (snd (process_folder [''sprites_done''] ''a_X'' fs_hundred))
     [''sprites_done'', ''X'', ''X_100.svg''] \<and>
   listdir fs_odd [''a_..''] = Inr [''1.svg'', ''2.svg''] \<and>
   chars (extract_proper_name (codepoints ''a_..'')) = ''..'' \<and>
   process_folder [''sprites_done''] ''a_..'' fs_odd =
     (Inr (), fs_odd @ [([''.._01.svg''], File ''p1''), ([''.._02.svg''], File ''p2'')]) \<and>
   listdir fs_odd [''a_.''] = Inr [''1.svg'', ''2.svg''] \<and>
   chars (extract_proper_name (codepoints ''a_.'')) = ''.'' \<and>
   process_folder [''sprites_done''] ''a_.'' fs_odd =
     (Inr (), fs_odd @ [([''sprites_done'', ''._01.svg''], File ''t1''),
                        ([''sprites_done'', ''._02.svg''], File ''t2'')]) \<and>
   listdir fs_odd [''a_Old''] = Inr [''1.svg'', ''2.svg''] \<and>
   fst (process_folder [''sprites_done''] ''a_Old'' fs_odd) = Inr () \<and>
   listdir (snd (process_folder [''sprites_done''] ''a_Old'' fs_odd)) [''sprites_done'', ''Old''] =
     Inr [''old.svg'', ''Old_01.svg'', ''Old_02.svg''] \<and>
   listdir fs_odd [''a_One''] = Inr [''1.svg''] \<and>
   process_folder [''sprites_done''] ''a_One'' fs_odd =
     (Inr (), fs_odd @ [([''sprites_done'', ''One.svg'', ''1.svg''], File ''r1'')]) \<and>
   listdir fs_odd [''a_Dir''] = Inr [''d.svg''] \<and>
   process_folder [''sprites_done''] ''a_Dir'' fs_odd = (Inl IsADirectoryError, fs_odd) \<and>
   listdir fs_odd [''a_Two''] = Inr [''1.svg'', ''d.svg''] \<and>
   process_folder [''sprites_done''] ''a_Two'' fs_odd =
     (Inl IsADirectoryError,
      fs_odd @ [([''sprites_done'', ''Two''], Dir),
                ([''sprites_done'', ''Two'', ''Two_01.svg''], File ''s1'')])"
proof -
  have many: "1 < length (svg_files_of hundred_names)"
    by (simp add: hundred_names_svg hundred_names_length)
  have out: "lookup fs_hundred [''sprites_done''] = Some Dir"
    by (simp add: fs_hundred_def lookup_def)
  note pn = proper_name_a_X
  have dots: "chars (extract_proper_name (codepoints ''a_X'')) \<noteq> ''.''"
    "chars (extract_proper_name (codepoints ''a_X'')) \<noteq> ''..''"
    unfolding pn by simp_all
  note facts = process_folder_many_facts[OF fs_hundred_distinct fs_hundred_listdir many
      fs_hundred_files out fs_hundred_fresh dots]
  have fm: "format_02d (Suc 99) = ''100''" by code_simp
  have k: "99 < length (svg_files_of hundred_names)"
    by (simp add: hundred_names_svg hundred_names_length)
  then have "sort (svg_files_of hundred_names) ! 99 \<in> set (sort (svg_files_of hundred_names))"
    by (simp only: nth_mem length_sort)
  then have "sort (svg_files_of hundred_names) ! 99 \<in> set (svg_files_of hundred_names)"
    by (simp only: set_sort)
  with fs_hundred_files have "is_file fs_hundred [''a_X'', sort (svg_files_of hundred_names) ! 99]"
    by blast
  with facts(4)[rule_format, OF k]
  have "is_file (snd (process_folder [''sprites_done''] ''a_X'' fs_hundred))
      (joinpath (joinpath [''sprites_done''] (chars (extract_proper_name (codepoints ''a_X''))))
         (chars (extract_proper_name (codepoints ''a_X'')) @ ''_'' @ format_02d (Suc 99) @ ''.svg''))"
    by (simp only: is_file_def)
  then have h4: "is_file (snd (process_folder [''sprites_done''] ''a_X'' fs_hundred))
      [''sprites_done'', ''X'', ''X_100.svg'']"
    unfolding pn fm by (simp add: joinpath_def)
  have h2: "length (svg_files_of hundred_names) = 100"
    by (simp add: hundred_names_svg hundred_names_length)
  have o1: "listdir fs_odd [''a_..''] = Inr [''1.svg'', ''2.svg'']" by code_simp
  have o2: "chars (extract_proper_name (codepoints ''a_..'')) = ''..''" by code_simp
  have o3: "process_folder [''sprites_done''] ''a_..'' fs_odd =
     (Inr (), fs_odd @ [([''.._01.svg''], File ''p1''), ([''.._02.svg''], File ''p2'')])"
    by code_simp
  have q1: "listdir fs_odd [''a_.''] = Inr [''1.svg'', ''2.svg'']" by code_simp
  have q2: "chars (extract_proper_name (codepoints ''a_.'')) = ''.''" by code_simp
  have q3: "process_folder [''sprites_done''] ''a_.'' fs_odd =
     (Inr (), fs_odd @ [([''sprites_done'', ''._01.svg''], File ''t1''),
                        ([''sprites_done'', ''._02.svg''], File ''t2'')])"
    by code_simp
  have o4: "listdir fs_odd [''a_Old''] = Inr [''1.svg'', ''2.svg'']" by code_simp
  have o5: "fst (process_folder [''sprites_done''] ''a_Old'' fs_odd) = Inr ()" by code_simp
  have o6: "listdir (snd (process_folder [''sprites_done''] ''a_Old'' fs_odd))
      [''sprites_done'', ''Old''] = Inr [''old.svg'', ''Old_01.svg'', ''Old_02.svg'']"
    by code_simp
  have o7: "listdir fs_odd [''a_One''] = Inr [''1.svg'']" by code_simp
  have o8: "process_folder [''sprites_done''] ''a_One'' fs_odd =
     (Inr (), fs_odd @ [([''sprites_done'', ''One.svg'', ''1.svg''], File ''r1'')])"
    by code_simp
  have o9: "listdir fs_odd [''a_Dir''] = Inr [''d.svg'']" by code_simp
  have o10: "process_folder [''sprites_done''] ''a_Dir'' fs_odd = (Inl IsADirectoryError, fs_odd)"
    by code_simp
  have o11: "listdir fs_odd [''a_Two''] = Inr [''1.svg'', ''d.svg'']" by code_simp
  have o12: "process_folder [''sprites_done''] ''a_Two'' fs_odd =
     (Inl IsADirectoryError,
      fs_odd @ [([''sprites_done'', ''Two''], Dir),
                ([''sprites_done'', ''Two'', ''Two_01.svg''], File ''s1'')])"
    by code_simp
  show ?thesis
    by (intro conjI)
       (rule fs_hundred_listdir h2 facts(1) h4 o1 o2 o3 q1 q2 q3 o4 o5 o6 o7 o8 o9 o10 o11 o12)+
qed

end
